theory Spec2Isabelle
  imports Main
begin

section \<open>Cells\<close>

text \<open>
  Modelled from the spec: the class \<open>Cell\<close> of \<open>cell.h\<close>, which \<open>solver.h\<close> includes, is not
  part of the sources at hand. Following the data model of the specification, a cell is
  either Empty, carrying the set of digits that are still candidates, or Filled, carrying
  its digit. The member functions below keep the names under which \<open>solver.h\<close> calls them.
\<close>

datatype cell = Empty "nat set" | Filled nat

text \<open>Modelled from the spec: \<open>isEmpty\<close> of \<open>cell.h\<close>, true for an Empty cell.\<close>

fun isEmpty :: "cell \<Rightarrow> bool" where
  "isEmpty (Empty cs) = True"
| "isEmpty (Filled d) = False"

text \<open>Modelled from the spec: \<open>number\<close> of \<open>cell.h\<close>, the digit of a Filled cell. The
  specification gives it a meaning on Filled cells only; on an Empty cell the model lets
  it report 0, the token that stands for an Empty cell in the input.\<close>

fun number :: "cell \<Rightarrow> nat" where
  "number (Filled d) = d"
| "number (Empty cs) = 0"

text \<open>Modelled from the spec: \<open>setNumber\<close> of \<open>cell.h\<close>, the assignment: the cell becomes
  Filled with the digit.\<close>

fun setNumber :: "nat \<Rightarrow> cell \<Rightarrow> cell" where
  "setNumber d c = Filled d"

text \<open>Modelled from the spec: \<open>disable\<close> of \<open>cell.h\<close>, the elimination: the digit leaves
  the candidates of an Empty cell; a Filled cell stays as it is.\<close>

fun disable :: "nat \<Rightarrow> cell \<Rightarrow> cell" where
  "disable d (Empty cs) = Empty (cs - {d})"
| "disable d (Filled x) = Filled x"

text \<open>Modelled from the spec: \<open>possibilities\<close> of \<open>cell.h\<close>, the candidates of an Empty
  cell in ascending order.\<close>

fun possibilities :: "cell \<Rightarrow> nat list" where
  "possibilities (Empty cs) = sorted_list_of_set cs"
| "possibilities (Filled d) = []"

text \<open>Modelled from the spec: \<open>isOnlyOne\<close> of \<open>cell.h\<close>, true for an Empty cell with
  exactly one candidate.\<close>

fun isOnlyOne :: "cell \<Rightarrow> bool" where
  "isOnlyOne (Empty cs) = (card cs = 1)"
| "isOnlyOne (Filled d) = False"

text \<open>Modelled from the spec: \<open>isPossible\<close> of \<open>cell.h\<close>, true when the digit is a
  candidate of the Empty cell.\<close>

fun isPossible :: "nat \<Rightarrow> cell \<Rightarrow> bool" where
  "isPossible d (Empty cs) = (d \<in> cs)"
| "isPossible d (Filled x) = False"

text \<open>Modelled from the spec: \<open>isInconsistent\<close> of \<open>cell.h\<close>, true for an Empty cell
  without candidates.\<close>

fun isInconsistent :: "cell \<Rightarrow> bool" where
  "isInconsistent (Empty cs) = (cs = {})"
| "isInconsistent (Filled d) = False"

section \<open>The solver\<close>

text \<open>
  \<open>Solver<SIZE>\<close> is a class template: the box size \<open>SIZE\<close> is the first argument of every
  function of the model. The member \<open>m_cells\<close>, an array of \<open>NCOUNT * NCOUNT\<close> cells, is the
  function from an index to the cell stored there; a member function that changes
  \<open>m_cells\<close> returns the new contents. Only indices below \<open>NCOUNT * NCOUNT\<close> belong to the
  array; the section on the neighbour tables shows that the tables hold such indices
  only, and \<open>std::find_if\<close> is modelled with the end iterator as a value of its own. The
  indices are \<open>size_t\<close> values bounded by the size of the array, so they are natural
  numbers here. \<open>print\<close> writes the grid to a stream and changes nothing; it is left out.
\<close>

type_synonym cells = "nat \<Rightarrow> cell"

definition NCOUNT :: "nat \<Rightarrow> nat" where
  "NCOUNT SIZE = SIZE * SIZE"

definition col :: "nat \<Rightarrow> nat \<Rightarrow> nat" where
  "col SIZE i = i mod NCOUNT SIZE"

definition row :: "nat \<Rightarrow> nat \<Rightarrow> nat" where
  "row SIZE i = i div NCOUNT SIZE"

definition box :: "nat \<Rightarrow> nat \<Rightarrow> nat" where
  "box SIZE i = (i div NCOUNT SIZE) div SIZE * SIZE + (i mod NCOUNT SIZE) div SIZE"

datatype NbType = ROW | COL | BOX

definition initNeighbors :: "nat \<Rightarrow> NbType \<Rightarrow> nat list list" where
  "initNeighbors SIZE ty =
     map (\<lambda>i1.
       let boxFirst = i1 div SIZE * SIZE * NCOUNT SIZE + i1 mod SIZE * SIZE
       in map (\<lambda>i2.
            case ty of
              ROW \<Rightarrow> i1 * NCOUNT SIZE + i2
            | COL \<Rightarrow> i2 * NCOUNT SIZE + i1
            | BOX \<Rightarrow> boxFirst + i2 div SIZE * NCOUNT SIZE + i2 mod SIZE)
          [0..<NCOUNT SIZE])
       [0..<NCOUNT SIZE]"

definition m_neighbors :: "nat \<Rightarrow> NbType \<Rightarrow> nat list list" where
  "m_neighbors SIZE ty = initNeighbors SIZE ty"

text \<open>\<open>updatePossibilities\<close>: three loops, each disabling the number of the cell at \<open>index\<close>
  in every cell of one of its groups.\<close>

definition disableAll :: "nat \<Rightarrow> nat list \<Rightarrow> cells \<Rightarrow> cells" where
  "disableAll num nbs cells = fold (\<lambda>nbi cs. cs(nbi := disable num (cs nbi))) nbs cells"

definition updatePossibilities :: "nat \<Rightarrow> cells \<Rightarrow> nat \<Rightarrow> cells" where
  "updatePossibilities SIZE cells index =
     (let num = number (cells index);
          cells1 = disableAll num (m_neighbors SIZE ROW ! row SIZE index) cells;
          cells2 = disableAll num (m_neighbors SIZE COL ! col SIZE index) cells1
      in disableAll num (m_neighbors SIZE BOX ! box SIZE index) cells2)"

text \<open>
  Modelled from the spec: \<open>operator>>\<close> for a cell belongs to \<open>cell.h\<close>, which is not part of
  the sources at hand. Following the specification of the input, the token 0 gives an
  Empty cell with all the digits from 1 to \<open>NCOUNT\<close> as candidates, a token from 1 to
  \<open>NCOUNT\<close> gives a Filled cell, and any other token makes the extraction fail.
\<close>

definition inputCell :: "nat \<Rightarrow> nat \<Rightarrow> cell option" where
  "inputCell SIZE token =
     (if token = 0 then Some (Empty {1..NCOUNT SIZE})
      else if token \<le> NCOUNT SIZE then Some (Filled token)
      else None)"

text \<open>
  \<open>read\<close>: the first loop fills \<open>m_cells\<close> from the stream, here the list of its tokens, and
  stops at the first cell that cannot be read, the end of the stream included; the second
  loop runs \<open>updatePossibilities\<close> for every cell that is not Empty.
\<close>

fun read_cells :: "nat \<Rightarrow> nat list \<Rightarrow> nat list \<Rightarrow> cells \<Rightarrow> bool \<times> cells" where
  "read_cells SIZE [] stream cells = (True, cells)"
| "read_cells SIZE (i # is) [] cells = (False, cells)"
| "read_cells SIZE (i # is) (token # stream) cells =
     (case inputCell SIZE token of
        None \<Rightarrow> (False, cells)
      | Some c \<Rightarrow> read_cells SIZE is stream (cells(i := c)))"

definition read_update :: "nat \<Rightarrow> nat list \<Rightarrow> cells \<Rightarrow> cells" where
  "read_update SIZE is cells =
     fold (\<lambda>i cs. if \<not> isEmpty (cs i) then updatePossibilities SIZE cs i else cs) is cells"

definition read :: "nat \<Rightarrow> nat list \<Rightarrow> cells \<Rightarrow> bool \<times> cells" where
  "read SIZE stream cells =
     (case read_cells SIZE [0..<NCOUNT SIZE * NCOUNT SIZE] stream cells of
        (False, cells') \<Rightarrow> (False, cells')
      | (True, cells') \<Rightarrow> (True, read_update SIZE [0..<NCOUNT SIZE * NCOUNT SIZE] cells'))"

text \<open>\<open>restrict\<close>: the lambda \<open>fn_check\<close>, the loop over the candidates of one cell, which
  stops at the first assignment, and the loop over all cells with its flag \<open>result\<close>.\<close>

definition fn_check :: "cells \<Rightarrow> nat \<Rightarrow> nat \<Rightarrow> nat list \<Rightarrow> bool" where
  "fn_check cells num ind nbs =
     list_all (\<lambda>nbi. \<not> (nbi \<noteq> ind \<and> isEmpty (cells nbi) \<and> isPossible num (cells nbi))) nbs"

fun restrict_numbers :: "nat \<Rightarrow> cells \<Rightarrow> nat \<Rightarrow> nat list \<Rightarrow> bool \<times> cells" where
  "restrict_numbers SIZE cells i [] = (False, cells)"
| "restrict_numbers SIZE cells i (num # numbers) =
     (if isOnlyOne (cells i)
         \<or> fn_check cells num i (m_neighbors SIZE ROW ! row SIZE i)
         \<or> fn_check cells num i (m_neighbors SIZE COL ! col SIZE i)
         \<or> fn_check cells num i (m_neighbors SIZE BOX ! box SIZE i)
      then (True, updatePossibilities SIZE (cells(i := setNumber num (cells i))) i)
      else restrict_numbers SIZE cells i numbers)"

fun restrict_cells :: "nat \<Rightarrow> nat list \<Rightarrow> cells \<Rightarrow> bool \<Rightarrow> bool \<times> cells" where
  "restrict_cells SIZE [] cells result = (result, cells)"
| "restrict_cells SIZE (i # is) cells result =
     (if \<not> isEmpty (cells i) then restrict_cells SIZE is cells result
      else case restrict_numbers SIZE cells i (possibilities (cells i)) of
             (True, cells') \<Rightarrow> restrict_cells SIZE is cells' True
           | (False, cells') \<Rightarrow> restrict_cells SIZE is cells' result)"

definition restrict :: "nat \<Rightarrow> cells \<Rightarrow> bool \<times> cells" where
  "restrict SIZE cells = restrict_cells SIZE [0..<NCOUNT SIZE * NCOUNT SIZE] cells False"

definition isFilled :: "nat \<Rightarrow> cells \<Rightarrow> bool" where
  "isFilled SIZE cells = list_all (\<lambda>i. \<not> isEmpty (cells i)) [0..<NCOUNT SIZE * NCOUNT SIZE]"

definition isSolvable :: "nat \<Rightarrow> cells \<Rightarrow> bool" where
  "isSolvable SIZE cells =
     list_all (\<lambda>i. \<not> isInconsistent (cells i)) [0..<NCOUNT SIZE * NCOUNT SIZE]"

text \<open>\<open>isCorrect\<close>: \<open>fn_testUnique\<close> inserts the numbers of a group into a set one by one
  and stops at the first number that is already there.\<close>

fun testUnique_from :: "cells \<Rightarrow> nat set \<Rightarrow> nat list \<Rightarrow> bool" where
  "testUnique_from cells numbers [] = True"
| "testUnique_from cells numbers (nbi # nbs) =
     (if number (cells nbi) \<in> numbers then False
      else testUnique_from cells (insert (number (cells nbi)) numbers) nbs)"

definition fn_testUnique :: "cells \<Rightarrow> nat list \<Rightarrow> bool" where
  "fn_testUnique cells nbs = testUnique_from cells {} nbs"

definition isCorrect :: "nat \<Rightarrow> cells \<Rightarrow> bool" where
  "isCorrect SIZE cells =
     list_all (\<lambda>index. fn_testUnique cells (m_neighbors SIZE ROW ! index)
                    \<and> fn_testUnique cells (m_neighbors SIZE COL ! index)
                    \<and> fn_testUnique cells (m_neighbors SIZE BOX ! index))
       [0..<NCOUNT SIZE]"

definition find_if_isEmpty :: "nat \<Rightarrow> cells \<Rightarrow> nat option" where
  "find_if_isEmpty SIZE cells = find (\<lambda>i. isEmpty (cells i)) [0..<NCOUNT SIZE * NCOUNT SIZE]"

section \<open>The neighbour tables\<close>

text \<open>
  Two notions that the source leaves implicit: the group of a given kind that a cell
  belongs to (\<open>row\<close>, \<open>col\<close> or \<open>box\<close> of its index), and the position of the cell inside
  that group.
\<close>

fun groupOf :: "nat \<Rightarrow> NbType \<Rightarrow> nat \<Rightarrow> nat" where
  "groupOf SIZE ROW i = row SIZE i"
| "groupOf SIZE COL i = col SIZE i"
| "groupOf SIZE BOX i = box SIZE i"

fun posInGroup :: "nat \<Rightarrow> NbType \<Rightarrow> nat \<Rightarrow> nat" where
  "posInGroup SIZE ROW i = col SIZE i"
| "posInGroup SIZE COL i = row SIZE i"
| "posInGroup SIZE BOX i = row SIZE i mod SIZE * SIZE + col SIZE i mod SIZE"

lemma length_m_neighbors [simp]: "length (m_neighbors SIZE ty) = NCOUNT SIZE"
  by (simp add: m_neighbors_def initNeighbors_def)

lemma length_m_neighbors_nth [simp]:
  "g < NCOUNT SIZE \<Longrightarrow> length (m_neighbors SIZE ty ! g) = NCOUNT SIZE"
  by (simp add: m_neighbors_def initNeighbors_def Let_def)

lemma m_neighbors_nth_nth:
  assumes "g < NCOUNT SIZE" and "i2 < NCOUNT SIZE"
  shows "m_neighbors SIZE ROW ! g ! i2 = g * NCOUNT SIZE + i2"
    and "m_neighbors SIZE COL ! g ! i2 = i2 * NCOUNT SIZE + g"
    and "m_neighbors SIZE BOX ! g ! i2 =
           (g div SIZE * SIZE + i2 div SIZE) * NCOUNT SIZE + (g mod SIZE * SIZE + i2 mod SIZE)"
  using assms by (simp_all add: m_neighbors_def initNeighbors_def Let_def algebra_simps)

text \<open>Division with remainder, two levels deep: an index is a row and a column, and each
  of these is a band and an offset inside the band.\<close>

lemma pair_less:
  fixes a b n m :: nat
  assumes "a < m" "b < n"
  shows "a * n + b < m * n"
proof -
  have "a * n + b < a * n + n" using assms by simp
  also have "\<dots> = (a + 1) * n" by simp
  also have "\<dots> \<le> m * n" using assms by (intro mult_le_mono1) simp
  finally show ?thesis .
qed

lemma row_less: "i < NCOUNT SIZE * NCOUNT SIZE \<Longrightarrow> row SIZE i < NCOUNT SIZE"
  unfolding row_def by (simp add: less_mult_imp_div_less)

lemma col_less: "i < NCOUNT SIZE * NCOUNT SIZE \<Longrightarrow> col SIZE i < NCOUNT SIZE"
  unfolding col_def by (cases "NCOUNT SIZE = 0") simp_all

lemma box_less:
  assumes "i < NCOUNT SIZE * NCOUNT SIZE"
  shows "box SIZE i < NCOUNT SIZE"
proof -
  have pos: "0 < SIZE" using assms by (cases SIZE) (simp_all add: NCOUNT_def)
  have r: "row SIZE i div SIZE < SIZE"
    using row_less[OF assms] by (simp add: NCOUNT_def less_mult_imp_div_less)
  have c: "col SIZE i div SIZE < SIZE"
    using col_less[OF assms] by (simp add: NCOUNT_def less_mult_imp_div_less)
  have "box SIZE i = row SIZE i div SIZE * SIZE + col SIZE i div SIZE"
    by (simp add: box_def row_def col_def)
  also have "\<dots> < SIZE * SIZE" using r c by (rule pair_less)
  finally show ?thesis by (simp add: NCOUNT_def)
qed

lemma groupOf_less:
  "i < NCOUNT SIZE * NCOUNT SIZE \<Longrightarrow> groupOf SIZE ty i < NCOUNT SIZE"
  by (cases ty) (simp_all add: row_less col_less box_less)

lemma index_row_col: "row SIZE i * NCOUNT SIZE + col SIZE i = i"
  by (simp add: row_def col_def)

text \<open>The cell in row \<open>r\<close> and column \<open>c\<close>.\<close>

lemma row_col_of_pair:
  assumes "c < NCOUNT SIZE"
  shows "row SIZE (r * NCOUNT SIZE + c) = r" and "col SIZE (r * NCOUNT SIZE + c) = c"
  using assms by (simp_all add: row_def col_def)

lemma box_of_pair:
  assumes "c < NCOUNT SIZE"
  shows "box SIZE (r * NCOUNT SIZE + c) = r div SIZE * SIZE + c div SIZE"
  using assms by (simp add: box_def)

lemma box_member_parts:
  assumes g: "g < NCOUNT SIZE" and i2: "i2 < NCOUNT SIZE"
  shows "g div SIZE * SIZE + i2 div SIZE < NCOUNT SIZE"
    and "g mod SIZE * SIZE + i2 mod SIZE < NCOUNT SIZE"
    and "(g div SIZE * SIZE + i2 div SIZE) div SIZE = g div SIZE"
    and "(g mod SIZE * SIZE + i2 mod SIZE) div SIZE = g mod SIZE"
    and "(g div SIZE * SIZE + i2 div SIZE) mod SIZE = i2 div SIZE"
    and "(g mod SIZE * SIZE + i2 mod SIZE) mod SIZE = i2 mod SIZE"
proof -
  have pos: "0 < SIZE" using g by (cases SIZE) (simp_all add: NCOUNT_def)
  have a: "g div SIZE < SIZE" "i2 div SIZE < SIZE"
    using g i2 by (simp_all add: NCOUNT_def less_mult_imp_div_less)
  have b: "g mod SIZE < SIZE" "i2 mod SIZE < SIZE" using pos by simp_all
  show "g div SIZE * SIZE + i2 div SIZE < NCOUNT SIZE"
    unfolding NCOUNT_def using a by (rule pair_less)
  show "g mod SIZE * SIZE + i2 mod SIZE < NCOUNT SIZE"
    unfolding NCOUNT_def using b by (rule pair_less)
  show "(g div SIZE * SIZE + i2 div SIZE) div SIZE = g div SIZE" using a by simp
  show "(g mod SIZE * SIZE + i2 mod SIZE) div SIZE = g mod SIZE" using b by simp
  show "(g div SIZE * SIZE + i2 div SIZE) mod SIZE = i2 div SIZE" using a by simp
  show "(g mod SIZE * SIZE + i2 mod SIZE) mod SIZE = i2 mod SIZE" using b by simp
qed

text \<open>The member at position \<open>i2\<close> of the group \<open>g\<close> is a cell of the grid, lies in
  group \<open>g\<close> and has position \<open>i2\<close> there.\<close>

lemma m_neighbors_nth_props:
  assumes g: "g < NCOUNT SIZE" and i2: "i2 < NCOUNT SIZE"
  shows "m_neighbors SIZE ty ! g ! i2 < NCOUNT SIZE * NCOUNT SIZE"
    and "groupOf SIZE ty (m_neighbors SIZE ty ! g ! i2) = g"
    and "posInGroup SIZE ty (m_neighbors SIZE ty ! g ! i2) = i2"
proof -
  note p = box_member_parts[OF g i2]
  note e = m_neighbors_nth_nth[OF g i2]
  have pos: "0 < SIZE" using g by (cases SIZE) (simp_all add: NCOUNT_def)
  show "m_neighbors SIZE ty ! g ! i2 < NCOUNT SIZE * NCOUNT SIZE"
    by (cases ty) (simp_all add: e pair_less g i2 p)
  show "groupOf SIZE ty (m_neighbors SIZE ty ! g ! i2) = g"
    by (cases ty) (simp_all add: e row_col_of_pair box_of_pair g i2 p)
  have "i2 div SIZE < SIZE"
    using i2 by (simp add: NCOUNT_def less_mult_imp_div_less)
  then have "i2 div SIZE mod SIZE * SIZE + i2 mod SIZE = i2" by simp
  then show "posInGroup SIZE ty (m_neighbors SIZE ty ! g ! i2) = i2"
    by (cases ty) (simp_all add: e row_col_of_pair g i2 p)
qed

text \<open>Every cell of the grid is the member of its group at its position.\<close>

lemma posInGroup_less:
  assumes "j < NCOUNT SIZE * NCOUNT SIZE"
  shows "posInGroup SIZE ty j < NCOUNT SIZE"
proof (cases ty)
  case BOX
  have pos: "0 < SIZE" using assms by (cases SIZE) (simp_all add: NCOUNT_def)
  have "row SIZE j mod SIZE * SIZE + col SIZE j mod SIZE < SIZE * SIZE"
    using pos by (intro pair_less) simp_all
  then show ?thesis using BOX by (simp add: NCOUNT_def)
qed (use assms in \<open>simp_all add: row_less col_less\<close>)

lemma m_neighbors_of_cell:
  assumes j: "j < NCOUNT SIZE * NCOUNT SIZE"
  shows "m_neighbors SIZE ty ! groupOf SIZE ty j ! posInGroup SIZE ty j = j"
proof -
  let ?n = "NCOUNT SIZE"
  let ?r = "row SIZE j" and ?c = "col SIZE j"
  have pos: "0 < SIZE" using j by (cases SIZE) (simp_all add: NCOUNT_def)
  note e = m_neighbors_nth_nth[OF groupOf_less[OF j] posInGroup_less[OF j]]
  show ?thesis
  proof (cases ty)
    case ROW
    then show ?thesis using e(1)[of ROW ROW] by (simp add: index_row_col)
  next
    case COL
    then show ?thesis using e(2)[of COL COL] by (simp add: index_row_col)
  next
    case BOX
    have cd: "?c div SIZE < SIZE"
      using col_less[OF j] by (simp add: NCOUNT_def less_mult_imp_div_less)
    have g: "box SIZE j = ?r div SIZE * SIZE + ?c div SIZE"
      by (simp add: box_def row_def col_def)
    have gd: "box SIZE j div SIZE = ?r div SIZE" and gm: "box SIZE j mod SIZE = ?c div SIZE"
      unfolding g using cd by simp_all
    have pd: "(?r mod SIZE * SIZE + ?c mod SIZE) div SIZE = ?r mod SIZE"
      and pm: "(?r mod SIZE * SIZE + ?c mod SIZE) mod SIZE = ?c mod SIZE"
      using pos by simp_all
    have "m_neighbors SIZE BOX ! box SIZE j ! (?r mod SIZE * SIZE + ?c mod SIZE)
          = (?r div SIZE * SIZE + ?r mod SIZE) * ?n + (?c div SIZE * SIZE + ?c mod SIZE)"
      using e(3)[of BOX BOX] by (simp only: groupOf.simps posInGroup.simps gd gm pd pm)
    also have "\<dots> = ?r * ?n + ?c" by (simp only: div_mult_mod_eq)
    also have "\<dots> = j" by (rule index_row_col)
    finally show ?thesis using BOX by simp
  qed
qed

lemma set_m_neighbors:
  assumes g: "g < NCOUNT SIZE"
  shows "set (m_neighbors SIZE ty ! g) = {j. j < NCOUNT SIZE * NCOUNT SIZE \<and> groupOf SIZE ty j = g}"
proof (intro set_eqI iffI)
  fix j assume "j \<in> set (m_neighbors SIZE ty ! g)"
  then obtain i2 where "i2 < length (m_neighbors SIZE ty ! g)" "m_neighbors SIZE ty ! g ! i2 = j"
    unfolding in_set_conv_nth by blast
  then have "i2 < NCOUNT SIZE" "m_neighbors SIZE ty ! g ! i2 = j"
    using g by simp_all
  then show "j \<in> {j. j < NCOUNT SIZE * NCOUNT SIZE \<and> groupOf SIZE ty j = g}"
    using m_neighbors_nth_props(1,2)[OF g, of i2 ty] by simp
next
  fix j assume "j \<in> {j. j < NCOUNT SIZE * NCOUNT SIZE \<and> groupOf SIZE ty j = g}"
  then have j: "j < NCOUNT SIZE * NCOUNT SIZE" and gj: "groupOf SIZE ty j = g" by simp_all
  have "m_neighbors SIZE ty ! g ! posInGroup SIZE ty j \<in> set (m_neighbors SIZE ty ! g)"
    using posInGroup_less[OF j] g by (intro nth_mem) simp
  then show "j \<in> set (m_neighbors SIZE ty ! g)"
    using m_neighbors_of_cell[OF j, of ty] gj by simp
qed

lemma distinct_m_neighbors:
  assumes g: "g < NCOUNT SIZE"
  shows "distinct (m_neighbors SIZE ty ! g)"
proof -
  show ?thesis
    unfolding distinct_conv_nth
  proof (intro allI impI)
    fix x y
    assume "x < length (m_neighbors SIZE ty ! g)" "y < length (m_neighbors SIZE ty ! g)"
      and ne: "x \<noteq> y"
    then have x: "x < NCOUNT SIZE" and y: "y < NCOUNT SIZE" using g by simp_all
    show "m_neighbors SIZE ty ! g ! x \<noteq> m_neighbors SIZE ty ! g ! y"
    proof
      assume "m_neighbors SIZE ty ! g ! x = m_neighbors SIZE ty ! g ! y"
      then have "posInGroup SIZE ty (m_neighbors SIZE ty ! g ! x)
               = posInGroup SIZE ty (m_neighbors SIZE ty ! g ! y)" by simp
      then show False
        using ne by (simp only: m_neighbors_nth_props(3)[OF g x] m_neighbors_nth_props(3)[OF g y])
    qed
  qed
qed

section \<open>The number of Empty cells decreases\<close>

text \<open>The recursion of \<open>solve\<close> and \<open>assumeNumber\<close> ends because every assignment fills an
  Empty cell and nothing empties a Filled one.\<close>

definition countEmpty :: "nat \<Rightarrow> cells \<Rightarrow> nat" where
  "countEmpty SIZE cells = length (filter (\<lambda>i. isEmpty (cells i)) [0..<NCOUNT SIZE * NCOUNT SIZE])"

lemma isEmpty_disable [simp]: "isEmpty (disable d c) = isEmpty c"
  by (cases c) simp_all

lemma disableAll_apply:
  "disableAll num nbs cells j = (if j \<in> set nbs then disable num (cells j) else cells j)"
  unfolding disableAll_def
proof (induction nbs arbitrary: cells)
  case Nil
  show ?case by simp
next
  case (Cons n ns)
  let ?F = "\<lambda>nbi cs. cs(nbi := disable num (cs nbi))"
  let ?c1 = "cells(n := disable num (cells n))"
  have idem: "disable num (disable num c) = disable num c" for c
    by (cases c) auto
  have "fold ?F (n # ns) cells j = fold ?F ns ?c1 j"
    by (simp only: fold_simps o_apply)
  also have "\<dots> = (if j \<in> set ns then disable num (?c1 j) else ?c1 j)"
    by (rule Cons.IH)
  also have "\<dots> = (if j \<in> set (n # ns) then disable num (cells j) else cells j)"
    by (simp add: idem)
  finally show ?case .
qed

lemma isEmpty_updatePossibilities [simp]:
  "isEmpty (updatePossibilities SIZE cells index j) = isEmpty (cells j)"
  by (simp add: updatePossibilities_def Let_def disableAll_apply)

lemma countEmpty_cong:
  "(\<And>j. j < NCOUNT SIZE * NCOUNT SIZE \<Longrightarrow> isEmpty (cells' j) = isEmpty (cells j))
   \<Longrightarrow> countEmpty SIZE cells' = countEmpty SIZE cells"
  unfolding countEmpty_def by (rule arg_cong [where f = length], rule filter_cong) auto

lemma countEmpty_fill:
  assumes "i < NCOUNT SIZE * NCOUNT SIZE" and "isEmpty (cells i)"
    and "\<not> isEmpty (cells' i)"
    and "\<And>j. j \<noteq> i \<Longrightarrow> isEmpty (cells' j) = isEmpty (cells j)"
  shows "countEmpty SIZE cells' < countEmpty SIZE cells"
proof -
  let ?n = "NCOUNT SIZE * NCOUNT SIZE"
  have sub: "{j \<in> set [0..<?n]. isEmpty (cells' j)} \<subset> {j \<in> set [0..<?n]. isEmpty (cells j)}"
    using assms by (auto, metis)
  have "card {j \<in> set [0..<?n]. isEmpty (cells' j)} < card {j \<in> set [0..<?n]. isEmpty (cells j)}"
    by (rule psubset_card_mono[OF _ sub]) simp
  moreover have "countEmpty SIZE c = card {j \<in> set [0..<?n]. isEmpty (c j)}" for c
    unfolding countEmpty_def by (simp add: distinct_length_filter Int_def conj_commute)
  ultimately show ?thesis by simp
qed

lemma countEmpty_assign:
  assumes "i < NCOUNT SIZE * NCOUNT SIZE" and "isEmpty (cells i)"
  shows "countEmpty SIZE (updatePossibilities SIZE (cells(i := setNumber num (cells i))) i)
         < countEmpty SIZE cells"
  using assms by (intro countEmpty_fill[where i = i]) simp_all

lemma restrict_numbers_False:
  "restrict_numbers SIZE cells i numbers = (False, cells') \<Longrightarrow> cells' = cells"
  by (induction numbers) (auto split: if_splits)

lemma restrict_numbers_True:
  "restrict_numbers SIZE cells i numbers = (True, cells') \<Longrightarrow>
   \<exists>num \<in> set numbers. cells' = updatePossibilities SIZE (cells(i := setNumber num (cells i))) i"
  by (induction numbers) (auto split: if_splits)

lemma restrict_cells_countEmpty:
  assumes "restrict_cells SIZE is cells result = (result', cells')"
    and "\<forall>i \<in> set is. i < NCOUNT SIZE * NCOUNT SIZE"
  shows "countEmpty SIZE cells' \<le> countEmpty SIZE cells
         \<and> (result' \<and> \<not> result \<longrightarrow> countEmpty SIZE cells' < countEmpty SIZE cells)
         \<and> (\<not> result' \<longrightarrow> cells' = cells)
         \<and> (result \<longrightarrow> result')"
  using assms
proof (induction "is" arbitrary: cells result)
  case Nil
  then show ?case by simp
next
  case (Cons i "is")
  show ?case
  proof (cases "isEmpty (cells i)")
    case False
    with Cons.prems(1) have "restrict_cells SIZE is cells result = (result', cells')" by simp
    from Cons.IH[OF this] Cons.prems(2) show ?thesis by simp
  next
    case True
    obtain b c1 where rn: "restrict_numbers SIZE cells i (possibilities (cells i)) = (b, c1)"
      by (cases "restrict_numbers SIZE cells i (possibilities (cells i))")
    show ?thesis
    proof (cases b)
      case True
      with rn have "restrict_numbers SIZE cells i (possibilities (cells i)) = (True, c1)"
        by simp
      then obtain num where c1: "c1 = updatePossibilities SIZE (cells(i := setNumber num (cells i))) i"
        using restrict_numbers_True by blast
      have lt: "countEmpty SIZE c1 < countEmpty SIZE cells"
        unfolding c1 using Cons.prems(2) \<open>isEmpty (cells i)\<close> by (intro countEmpty_assign) simp_all
      from Cons.prems(1) rn True \<open>isEmpty (cells i)\<close>
      have "restrict_cells SIZE is c1 True = (result', cells')" by simp
      from Cons.IH[OF this] Cons.prems(2) lt show ?thesis by auto
    next
      case False
      with rn have "restrict_numbers SIZE cells i (possibilities (cells i)) = (False, c1)"
        by simp
      then have "c1 = cells" using restrict_numbers_False by blast
      with Cons.prems(1) rn False \<open>isEmpty (cells i)\<close>
      have "restrict_cells SIZE is cells result = (result', cells')" by simp
      from Cons.IH[OF this] Cons.prems(2) show ?thesis by auto
    qed
  qed
qed

lemma restrict_True_countEmpty:
  "restrict SIZE cells = (True, cells') \<Longrightarrow> countEmpty SIZE cells' < countEmpty SIZE cells"
  unfolding restrict_def using restrict_cells_countEmpty[of SIZE "[0..<NCOUNT SIZE * NCOUNT SIZE]" cells False True cells']
  by simp

lemma restrict_False_same:
  "restrict SIZE cells = (False, cells') \<Longrightarrow> cells' = cells"
  unfolding restrict_def using restrict_cells_countEmpty[of SIZE "[0..<NCOUNT SIZE * NCOUNT SIZE]" cells False False cells']
  by simp

lemma find_if_isEmpty_Some:
  "find_if_isEmpty SIZE cells = Some index \<Longrightarrow>
   index < NCOUNT SIZE * NCOUNT SIZE \<and> isEmpty (cells index)"
  unfolding find_if_isEmpty_def by (auto simp: find_Some_iff)

section \<open>solve and assumeNumber\<close>

text \<open>
  \<open>solve\<close> and \<open>assumeNumber\<close> call each other. Both return the value of the \<open>bool\<close>
  together with the new contents of \<open>m_cells\<close>. \<open>assumeNumber_loop\<close> is the loop of
  \<open>assumeNumber\<close> over the candidates of the cell at \<open>index\<close>; its argument \<open>cells\<close> is the
  state at the head of an iteration, which is the state \<open>backup\<close> keeps. When no cell is
  Empty, \<open>std::find_if\<close> returns the end iterator, and dereferencing it is undefined:
  the model returns \<open>None\<close>. The tracing output to \<open>std::cout\<close> is left out.
\<close>

function solve :: "nat \<Rightarrow> cells \<Rightarrow> (bool \<times> cells) option"
  and assumeNumber :: "nat \<Rightarrow> cells \<Rightarrow> (bool \<times> cells) option"
  and assumeNumber_loop :: "nat \<Rightarrow> cells \<Rightarrow> nat \<Rightarrow> nat list \<Rightarrow> (bool \<times> cells) option"
where
  "solve SIZE cells =
     (let solvable = isSolvable SIZE cells in
      if isFilled SIZE cells \<or> \<not> solvable then Some (solvable, cells)
      else case restrict SIZE cells of
             (True, cells') \<Rightarrow> solve SIZE cells'
           | (False, cells') \<Rightarrow> assumeNumber SIZE cells')"
| "assumeNumber SIZE cells =
     (case find_if_isEmpty SIZE cells of
        None \<Rightarrow> None
      | Some index \<Rightarrow> assumeNumber_loop SIZE cells index (possibilities (cells index)))"
| "assumeNumber_loop SIZE cells index [] = Some (False, cells)"
| "assumeNumber_loop SIZE cells index (poss_number # poss) =
     (let backup = cells;
          cells1 = updatePossibilities SIZE (cells(index := setNumber poss_number (cells index))) index
      in case solve SIZE cells1 of
           None \<Rightarrow> None
         | Some (True, cells2) \<Rightarrow> Some (True, cells2)
         | Some (False, cells2) \<Rightarrow> assumeNumber_loop SIZE backup index poss)"
  by pat_completeness auto

termination
  apply (relation "inv_image (less_than <*lex*> less_than <*lex*> less_than)
    (\<lambda>x. case x of
        Inl (SIZE, cells) \<Rightarrow> (countEmpty SIZE cells, 1::nat, 0::nat)
      | Inr (Inl (SIZE, cells)) \<Rightarrow> (countEmpty SIZE cells, 0, 0)
      | Inr (Inr (SIZE, cells, index, poss)) \<Rightarrow>
          (countEmpty SIZE (cells(index := Filled 0)), 2, length poss))")
  subgoal by (intro wf_inv_image wf_lex_prod wf_less_than)
  subgoal for SIZE cells solvable progress cells'
    using restrict_True_countEmpty[of SIZE cells cells'] by simp
  subgoal for SIZE cells solvable progress cells'
    using restrict_False_same[of SIZE cells cells'] by simp
  subgoal for SIZE cells index
    using find_if_isEmpty_Some[of SIZE cells index]
      countEmpty_fill[of index SIZE cells "cells(index := Filled 0)"]
    by simp
  subgoal for SIZE cells index poss_number poss backup cells1
    using countEmpty_cong[of SIZE cells1 "cells(index := Filled 0)"]
    by simp
  subgoal by simp
  done

declare solve.simps [simp del] assumeNumber.simps [simp del]

section \<open>Notions of the specification\<close>

text \<open>The cells that share a row, a column or a box with the cell at \<open>index\<close>, that cell
  included; the same without it; and the grid after the cell at \<open>index\<close> has been assigned
  \<open>num\<close> and the elimination for it has run.\<close>

definition inGroupsOf :: "nat \<Rightarrow> nat \<Rightarrow> nat \<Rightarrow> bool" where
  "inGroupsOf SIZE index j =
     (j < NCOUNT SIZE * NCOUNT SIZE
      \<and> (row SIZE j = row SIZE index \<or> col SIZE j = col SIZE index \<or> box SIZE j = box SIZE index))"

inductive propagation :: "nat \<Rightarrow> cells \<Rightarrow> cells \<Rightarrow> bool" for SIZE :: nat and cells :: cells where
  start: "propagation SIZE cells cells"
| sweep: "propagation SIZE cells cells1 \<Longrightarrow> propagation SIZE cells (snd (restrict SIZE cells1))"
| update: "propagation SIZE cells cells1 \<Longrightarrow>
     propagation SIZE cells (updatePossibilities SIZE cells1 index)"
| assign: "propagation SIZE cells cells1 \<Longrightarrow>
     propagation SIZE cells
       (updatePossibilities SIZE (cells1(index := setNumber num (cells1 index))) index)"

definition shrinks :: "cell \<Rightarrow> cell \<Rightarrow> bool" where
  "shrinks c c' = (case c' of
       Filled d' \<Rightarrow> True
     | Empty cs' \<Rightarrow> (case c of Filled d \<Rightarrow> False | Empty cs \<Rightarrow> cs' \<subseteq> cs))"

abbreviation assigned :: "nat \<Rightarrow> cells \<Rightarrow> nat \<Rightarrow> nat \<Rightarrow> cells" where
  "assigned SIZE cells index num \<equiv>
     updatePossibilities SIZE (cells(index := setNumber num (cells index))) index"

text \<open>The validator in the words of the specification.\<close>

definition numbersDistinct :: "nat \<Rightarrow> cells \<Rightarrow> bool" where
  "numbersDistinct SIZE cells =
     (\<forall>i \<in> {0..<NCOUNT SIZE * NCOUNT SIZE}. \<forall>j \<in> {0..<NCOUNT SIZE * NCOUNT SIZE}.
        j \<noteq> i \<and> (row SIZE j = row SIZE i \<or> col SIZE j = col SIZE i \<or> box SIZE j = box SIZE i)
        \<longrightarrow> number (cells j) \<noteq> number (cells i))"

definition allFilledDistinct :: "nat \<Rightarrow> cells \<Rightarrow> bool" where
  "allFilledDistinct SIZE cells =
     ((\<forall>i \<in> {0..<NCOUNT SIZE * NCOUNT SIZE}. \<not> isEmpty (cells i)) \<and> numbersDistinct SIZE cells)"

text \<open>The deduction rules of the sweep in the words of the specification: a candidate
  \<open>c\<close> of the cell at \<open>i\<close> is a hidden single when, in at least one of the three groups of
  the cell, no other Empty cell lists \<open>c\<close>.\<close>

definition hiddenSingle :: "nat \<Rightarrow> cells \<Rightarrow> nat \<Rightarrow> nat \<Rightarrow> bool" where
  "hiddenSingle SIZE cells i c =
     (\<exists>ty \<in> {ROW, COL, BOX}. \<forall>j \<in> {0..<NCOUNT SIZE * NCOUNT SIZE}.
        j \<noteq> i \<and> groupOf SIZE ty j = groupOf SIZE ty i \<longrightarrow>
        \<not> (isEmpty (cells j) \<and> isPossible c (cells j)))"

definition assignable :: "nat \<Rightarrow> cells \<Rightarrow> nat \<Rightarrow> nat \<Rightarrow> bool" where
  "assignable SIZE cells i c = (isOnlyOne (cells i) \<or> hiddenSingle SIZE cells i c)"

text \<open>The contract of \<open>solve\<close> in the words of the specification: the sweep is applied
  again and again until it reports no progress.\<close>

function propagateToFixpoint :: "nat \<Rightarrow> cells \<Rightarrow> cells" where
  "propagateToFixpoint SIZE cells =
     (case restrict SIZE cells of
        (True, cells') \<Rightarrow> propagateToFixpoint SIZE cells'
      | (False, cells') \<Rightarrow> cells')"
  by pat_completeness auto

termination
  by (relation "measure (\<lambda>(SIZE, cells). countEmpty SIZE cells)")
     (simp_all add: restrict_True_countEmpty)

declare propagateToFixpoint.simps [simp del]

text \<open>A legal completion of a grid, in the words of the specification: a digit from 1 to
  \<open>NCOUNT\<close> for every cell, no digit twice in a row, a column or a box, and the digit of every
  Filled cell of the grid kept.\<close>

definition legal :: "nat \<Rightarrow> nat list \<Rightarrow> bool" where
  "legal SIZE sol =
     (length sol = NCOUNT SIZE * NCOUNT SIZE
      \<and> (\<forall>i \<in> {0..<NCOUNT SIZE * NCOUNT SIZE}. 1 \<le> sol ! i \<and> sol ! i \<le> NCOUNT SIZE)
      \<and> (\<forall>i \<in> {0..<NCOUNT SIZE * NCOUNT SIZE}. \<forall>j \<in> {0..<NCOUNT SIZE * NCOUNT SIZE}.
            j \<noteq> i \<and> (row SIZE j = row SIZE i \<or> col SIZE j = col SIZE i \<or> box SIZE j = box SIZE i)
            \<longrightarrow> sol ! j \<noteq> sol ! i))"

definition completion :: "nat \<Rightarrow> cells \<Rightarrow> nat list \<Rightarrow> bool" where
  "completion SIZE cells sol =
     (legal SIZE sol
      \<and> (\<forall>i \<in> {0..<NCOUNT SIZE * NCOUNT SIZE}. \<not> isEmpty (cells i) \<longrightarrow> sol ! i = number (cells i)))"

text \<open>The invariant of the solver: the digit of a Filled cell lies between 1 and \<open>NCOUNT\<close>,
  no other cell of its row, column and box is Filled with it or lists it as a candidate,
  and candidates lie between 1 and \<open>NCOUNT\<close>.\<close>

definition peers :: "nat \<Rightarrow> nat \<Rightarrow> nat \<Rightarrow> bool" where
  "peers SIZE i j =
     (j \<noteq> i \<and> (row SIZE j = row SIZE i \<or> col SIZE j = col SIZE i \<or> box SIZE j = box SIZE i))"

definition excludes :: "nat \<Rightarrow> cell \<Rightarrow> bool" where
  "excludes d c = (case c of Filled e \<Rightarrow> e \<noteq> d | Empty cs \<Rightarrow> d \<notin> cs)"

definition cellOk :: "nat \<Rightarrow> cells \<Rightarrow> nat \<Rightarrow> bool" where
  "cellOk SIZE cells i =
     (case cells i of
        Filled d \<Rightarrow> 1 \<le> d \<and> d \<le> NCOUNT SIZE
          \<and> (\<forall>j < NCOUNT SIZE * NCOUNT SIZE. peers SIZE i j \<longrightarrow> excludes d (cells j))
      | Empty cs \<Rightarrow> cs \<subseteq> {1..NCOUNT SIZE})"

definition wellFormed :: "nat \<Rightarrow> cells \<Rightarrow> bool" where
  "wellFormed SIZE cells = (\<forall>i < NCOUNT SIZE * NCOUNT SIZE. cellOk SIZE cells i)"

definition admits :: "nat \<Rightarrow> cell \<Rightarrow> bool" where
  "admits d c = (case c of Filled e \<Rightarrow> e = d | Empty cs \<Rightarrow> d \<in> cs)"

definition agrees :: "nat \<Rightarrow> cells \<Rightarrow> nat list \<Rightarrow> bool" where
  "agrees SIZE cells sol = (\<forall>i < NCOUNT SIZE * NCOUNT SIZE. admits (sol ! i) (cells i))"

text \<open>The grid that \<open>read\<close> leaves. The invariant of its second loop: the grid agrees with
  the completion, all digits and candidates lie between 1 and \<open>NCOUNT\<close>, and the digits of
  the cells already visited are excluded from the rest of their groups.\<close>

definition inRange :: "nat \<Rightarrow> cell \<Rightarrow> bool" where
  "inRange SIZE c = (case c of Filled d \<Rightarrow> 1 \<le> d \<and> d \<le> NCOUNT SIZE | Empty cs \<Rightarrow> cs \<subseteq> {1..NCOUNT SIZE})"

definition readInv :: "nat \<Rightarrow> nat list \<Rightarrow> nat set \<Rightarrow> cells \<Rightarrow> bool" where
  "readInv SIZE sol D cells =
     (agrees SIZE cells sol
      \<and> (\<forall>i < NCOUNT SIZE * NCOUNT SIZE. inRange SIZE (cells i))
      \<and> (\<forall>i \<in> D. \<forall>d. i < NCOUNT SIZE * NCOUNT SIZE \<and> cells i = Filled d \<longrightarrow>
            (\<forall>j < NCOUNT SIZE * NCOUNT SIZE. peers SIZE i j \<longrightarrow> excludes d (cells j))))"

section \<open>Example grids\<close>

text \<open>\<open>oneGrid\<close> is a grid of box size 1: a single cell, Empty. The other grids have box
  size 2, sixteen cells in row-major order. \<open>blankGrid\<close> has no digit.
  In \<open>clashGrid\<close> the first two cells of the first row have the single candidate 1.
  \<open>solvedGrid\<close> is a legal solution and \<open>almostGrid\<close> the same with its last cell Empty.
  In \<open>twoCandGrid\<close> the first cell has two candidates and every other cell is Filled.
  \<open>puzzle\<close> is a stream of tokens with one blank, \<open>puzzleSolution\<close> its completion.\<close>

definition oneGrid :: cells where
  "oneGrid = (\<lambda>i. Empty {1})"

definition blankGrid :: cells where
  "blankGrid = (\<lambda>i. Empty {1, 2, 3, 4})"

definition clashGrid :: cells where
  "clashGrid = (\<lambda>i. [Empty {1}, Empty {1}, Filled 2, Filled 3,
                      Filled 4, Empty {1, 2, 3}, Empty {1, 3}, Empty {1, 2},
                      Empty {1, 2, 3}, Empty {1, 2, 3, 4}, Empty {1, 3, 4}, Empty {1, 2, 4},
                      Empty {1, 2, 3}, Empty {1, 2, 3, 4}, Empty {1, 3, 4}, Empty {1, 2, 4}] ! i)"

definition almostGrid :: cells where
  "almostGrid = (\<lambda>i. [Filled 1, Filled 2, Filled 3, Filled 4,
                       Filled 3, Filled 4, Filled 1, Filled 2,
                       Filled 2, Filled 1, Filled 4, Filled 3,
                       Filled 4, Filled 3, Filled 2, Empty {1}] ! i)"

definition solvedGrid :: cells where
  "solvedGrid = (\<lambda>i. [Filled 1, Filled 2, Filled 3, Filled 4,
                       Filled 3, Filled 4, Filled 1, Filled 2,
                       Filled 2, Filled 1, Filled 4, Filled 3,
                       Filled 4, Filled 3, Filled 2, Filled 1] ! i)"

definition twoCandGrid :: cells where
  "twoCandGrid = (\<lambda>i. [Empty {1, 2}, Filled 3, Filled 4, Filled 3,
                        Filled 4, Filled 3, Filled 4, Filled 3,
                        Filled 3, Filled 4, Filled 3, Filled 4,
                        Filled 4, Filled 3, Filled 4, Filled 3] ! i)"

definition puzzle :: "nat list" where
  "puzzle = [1, 2, 3, 4,
             3, 4, 1, 2,
             2, 1, 4, 3,
             4, 3, 2, 0]"

definition puzzleSolution :: "nat list" where
  "puzzleSolution = [1, 2, 3, 4,
                     3, 4, 1, 2,
                     2, 1, 4, 3,
                     4, 3, 2, 1]"

section \<open>Effects of the operations\<close>

lemma disable_idem [simp]: "disable d (disable d c) = disable d c"
  by (cases c) auto

lemma set_m_neighbors_of:
  assumes "index < NCOUNT SIZE * NCOUNT SIZE"
  shows "set (m_neighbors SIZE ty ! groupOf SIZE ty index)
         = {j. j < NCOUNT SIZE * NCOUNT SIZE \<and> groupOf SIZE ty j = groupOf SIZE ty index}"
  by (rule set_m_neighbors[OF groupOf_less[OF assms]])

lemma updatePossibilities_apply:
  assumes "index < NCOUNT SIZE * NCOUNT SIZE"
  shows "updatePossibilities SIZE cells index j =
     (if inGroupsOf SIZE index j then disable (number (cells index)) (cells j) else cells j)"
  using set_m_neighbors_of[OF assms, of ROW] set_m_neighbors_of[OF assms, of COL]
    set_m_neighbors_of[OF assms, of BOX]
  by (auto simp: updatePossibilities_def Let_def disableAll_apply inGroupsOf_def)

lemma find_if_isEmpty_None:
  "find_if_isEmpty SIZE cells = None \<longleftrightarrow> isFilled SIZE cells"
  by (auto simp: find_if_isEmpty_def isFilled_def find_None_iff list_all_iff)

lemma find_if_isEmpty_first:
  "find_if_isEmpty SIZE cells = Some index \<Longrightarrow> j < index \<Longrightarrow> \<not> isEmpty (cells j)"
  unfolding find_if_isEmpty_def by (auto simp: find_Some_iff)

lemma solve_returns:
  "solve SIZE cells \<noteq> None"
  "\<not> isFilled SIZE cells \<Longrightarrow> assumeNumber SIZE cells \<noteq> None"
  "assumeNumber_loop SIZE cells index poss \<noteq> None"
proof (induction SIZE cells and SIZE cells and SIZE cells index poss
    rule: solve_assumeNumber_assumeNumber_loop.induct)
  case (1 SIZE cells)
  show ?case
  proof (cases "isFilled SIZE cells \<or> \<not> isSolvable SIZE cells")
    case True
    then show ?thesis by (subst solve.simps) (simp add: Let_def)
  next
    case False
    obtain b c where r: "restrict SIZE cells = (b, c)" by (cases "restrict SIZE cells")
    show ?thesis
    proof (cases b)
      case True
      with 1(1)[OF refl False] r have "solve SIZE c \<noteq> None" by simp
      with False r True show ?thesis by (subst solve.simps) (simp add: Let_def)
    next
      case b: False
      with r have "restrict SIZE cells = (False, c)" by simp
      then have "c = cells" by (rule restrict_False_same)
      with False have "\<not> isFilled SIZE c" by simp
      with 1(2)[OF refl False] r b have "assumeNumber SIZE c \<noteq> None" by simp
      with False r b show ?thesis by (subst solve.simps) (simp add: Let_def)
    qed
  qed
next
  case (2 SIZE cells)
  then obtain index where "find_if_isEmpty SIZE cells = Some index"
    using find_if_isEmpty_None[of SIZE cells] by auto
  with 2 show ?case by (subst assumeNumber.simps) simp
next
  case (3 SIZE cells index)
  show ?case by simp
next
  case (4 SIZE cells index poss_number poss)
  then show ?case by (auto simp: Let_def split: option.splits bool.splits)
qed

section \<open>Candidates only shrink\<close>

lemma shrinks_refl [simp]: "shrinks c c"
  by (simp add: shrinks_def split: cell.splits)

lemma shrinks_trans: "shrinks a b \<Longrightarrow> shrinks b c \<Longrightarrow> shrinks a c"
  by (auto simp: shrinks_def split: cell.splits)

lemma shrinks_disable [simp]: "shrinks c (disable d c)"
  by (cases c) (auto simp: shrinks_def)

lemma shrinks_Filled [simp]: "shrinks c (Filled d)"
  by (simp add: shrinks_def)

lemma shrinks_disableAll: "shrinks (cells j) (disableAll num nbs cells j)"
  by (simp add: disableAll_apply)

lemma shrinks_updatePossibilities: "shrinks (cells j) (updatePossibilities SIZE cells index j)"
  unfolding updatePossibilities_def Let_def
  by (blast intro: shrinks_trans shrinks_disableAll)

lemma shrinks_assign:
  "shrinks (cells j) (updatePossibilities SIZE (cells(index := setNumber num (cells index))) index j)"
proof -
  have "shrinks (cells j) ((cells(index := setNumber num (cells index))) j)" by simp
  then show ?thesis by (rule shrinks_trans) (rule shrinks_updatePossibilities)
qed

lemma shrinks_restrict_cells:
  "restrict_cells SIZE is cells result = (result', cells') \<Longrightarrow> shrinks (cells j) (cells' j)"
proof (induction "is" arbitrary: cells result)
  case Nil
  then show ?case by simp
next
  case (Cons i "is")
  show ?case
  proof (cases "isEmpty (cells i)")
    case False
    with Cons show ?thesis by simp
  next
    case True
    obtain b c1 where rn: "restrict_numbers SIZE cells i (possibilities (cells i)) = (b, c1)"
      by (cases "restrict_numbers SIZE cells i (possibilities (cells i))")
    have step: "shrinks (cells j) (c1 j)"
    proof (cases b)
      case True
      with rn have "restrict_numbers SIZE cells i (possibilities (cells i)) = (True, c1)" by simp
      then show ?thesis using restrict_numbers_True shrinks_assign by blast
    next
      case False
      with rn have "restrict_numbers SIZE cells i (possibilities (cells i)) = (False, c1)" by simp
      then have "c1 = cells" by (rule restrict_numbers_False)
      then show ?thesis by simp
    qed
    from Cons.prems rn True
    have "restrict_cells SIZE is c1 (if b then True else result) = (result', cells')"
      by (cases b) simp_all
    from Cons.IH[OF this] step show ?thesis by (rule shrinks_trans[rotated])
  qed
qed

lemma shrinks_restrict: "shrinks (cells j) (snd (restrict SIZE cells) j)"
  using shrinks_restrict_cells[of SIZE _ cells False "fst (restrict SIZE cells)" "snd (restrict SIZE cells)" j]
  by (simp add: restrict_def)

section \<open>The loop of assumeNumber\<close>

lemma solve_Some: "\<exists>b cells'. solve SIZE cells = Some (b, cells')"
  using solve_returns(1)[of SIZE cells] by (cases "solve SIZE cells") auto

lemma assumeNumber_loop_False:
  "assumeNumber_loop SIZE cells index poss = Some (False, cells') \<Longrightarrow> cells' = cells"
  by (induction poss) (auto simp: Let_def split: option.splits bool.splits)

lemma assumeNumber_loop_True:
  "assumeNumber_loop SIZE cells index poss = Some (True, cells') \<Longrightarrow>
   \<exists>p \<in> set poss. solve SIZE (assigned SIZE cells index p) = Some (True, cells')"
  by (induction poss) (auto simp: Let_def split: option.splits bool.splits)

lemma assumeNumber_loop_all_fail:
  "\<forall>p \<in> set poss. \<exists>c. solve SIZE (assigned SIZE cells index p) = Some (False, c) \<Longrightarrow>
   assumeNumber_loop SIZE cells index poss = Some (False, cells)"
  by (induction poss) (auto simp: Let_def)

section \<open>The validator\<close>

lemma testUnique_from_iff:
  "testUnique_from cells numbers nbs \<longleftrightarrow>
     distinct (map (\<lambda>nbi. number (cells nbi)) nbs)
     \<and> (\<forall>nbi \<in> set nbs. number (cells nbi) \<notin> numbers)"
  by (induction nbs arbitrary: numbers) (auto simp: image_iff)

lemma fn_testUnique_iff:
  "fn_testUnique cells nbs \<longleftrightarrow> distinct (map (\<lambda>nbi. number (cells nbi)) nbs)"
  by (simp add: fn_testUnique_def testUnique_from_iff)

lemma fn_testUnique_group:
  assumes "g < NCOUNT SIZE"
  shows "fn_testUnique cells (m_neighbors SIZE ty ! g) \<longleftrightarrow>
     inj_on (\<lambda>nbi. number (cells nbi)) {j. j < NCOUNT SIZE * NCOUNT SIZE \<and> groupOf SIZE ty j = g}"
  by (simp add: fn_testUnique_iff distinct_map distinct_m_neighbors[OF assms] set_m_neighbors[OF assms])

lemma same_group_cases:
  "(\<exists>ty. groupOf SIZE ty j = groupOf SIZE ty i) \<longleftrightarrow>
   row SIZE j = row SIZE i \<or> col SIZE j = col SIZE i \<or> box SIZE j = box SIZE i"
proof
  assume "\<exists>ty. groupOf SIZE ty j = groupOf SIZE ty i"
  then obtain ty where "groupOf SIZE ty j = groupOf SIZE ty i" ..
  then show "row SIZE j = row SIZE i \<or> col SIZE j = col SIZE i \<or> box SIZE j = box SIZE i"
    by (cases ty) simp_all
next
  assume "row SIZE j = row SIZE i \<or> col SIZE j = col SIZE i \<or> box SIZE j = box SIZE i"
  then show "\<exists>ty. groupOf SIZE ty j = groupOf SIZE ty i"
    using groupOf.simps by metis
qed

lemma isCorrect_iff_groups:
  "isCorrect SIZE cells \<longleftrightarrow>
     (\<forall>ty. \<forall>g < NCOUNT SIZE. fn_testUnique cells (m_neighbors SIZE ty ! g))"
proof
  assume c: "isCorrect SIZE cells"
  show "\<forall>ty. \<forall>g < NCOUNT SIZE. fn_testUnique cells (m_neighbors SIZE ty ! g)"
  proof (intro allI impI)
    fix ty g assume "g < NCOUNT SIZE"
    with c show "fn_testUnique cells (m_neighbors SIZE ty ! g)"
      by (cases ty) (simp_all add: isCorrect_def list_all_iff)
  qed
next
  assume "\<forall>ty. \<forall>g < NCOUNT SIZE. fn_testUnique cells (m_neighbors SIZE ty ! g)"
  then show "isCorrect SIZE cells" by (simp add: isCorrect_def list_all_iff)
qed

lemma isCorrect_iff_numbersDistinct:
  "isCorrect SIZE cells \<longleftrightarrow> numbersDistinct SIZE cells"
proof
  assume c: "isCorrect SIZE cells"
  show "numbersDistinct SIZE cells"
    unfolding numbersDistinct_def
  proof (intro ballI impI)
    fix i j
    assume i: "i \<in> {0..<NCOUNT SIZE * NCOUNT SIZE}" and j: "j \<in> {0..<NCOUNT SIZE * NCOUNT SIZE}"
      and h: "j \<noteq> i \<and> (row SIZE j = row SIZE i \<or> col SIZE j = col SIZE i \<or> box SIZE j = box SIZE i)"
    then obtain ty where ty: "groupOf SIZE ty j = groupOf SIZE ty i"
      using same_group_cases[of SIZE j i] by blast
    have g: "groupOf SIZE ty i < NCOUNT SIZE" using i by (simp add: groupOf_less)
    from c g have "fn_testUnique cells (m_neighbors SIZE ty ! groupOf SIZE ty i)"
      by (simp add: isCorrect_iff_groups)
    then have "inj_on (\<lambda>nbi. number (cells nbi))
        {k. k < NCOUNT SIZE * NCOUNT SIZE \<and> groupOf SIZE ty k = groupOf SIZE ty i}"
      by (simp only: fn_testUnique_group[OF g])
    then show "number (cells j) \<noteq> number (cells i)"
      using i j h ty by (auto simp: inj_on_def)
  qed
next
  assume d: "numbersDistinct SIZE cells"
  show "isCorrect SIZE cells"
    unfolding isCorrect_iff_groups
  proof (intro allI impI)
    fix ty g assume g: "g < NCOUNT SIZE"
    have "inj_on (\<lambda>nbi. number (cells nbi))
        {k. k < NCOUNT SIZE * NCOUNT SIZE \<and> groupOf SIZE ty k = g}"
    proof (rule inj_onI, rule ccontr)
      fix x y
      assume x: "x \<in> {k. k < NCOUNT SIZE * NCOUNT SIZE \<and> groupOf SIZE ty k = g}"
        and y: "y \<in> {k. k < NCOUNT SIZE * NCOUNT SIZE \<and> groupOf SIZE ty k = g}"
        and e: "number (cells x) = number (cells y)" and ne: "x \<noteq> y"
      from x y have "groupOf SIZE ty x = groupOf SIZE ty y" by simp
      then have "\<exists>ty. groupOf SIZE ty x = groupOf SIZE ty y" ..
      then have "row SIZE x = row SIZE y \<or> col SIZE x = col SIZE y \<or> box SIZE x = box SIZE y"
        by (simp only: same_group_cases)
      with d x y ne have "number (cells x) \<noteq> number (cells y)"
        by (simp add: numbersDistinct_def)
      with e show False by simp
    qed
    then show "fn_testUnique cells (m_neighbors SIZE ty ! g)"
      by (simp add: fn_testUnique_group[OF g])
  qed
qed

lemma isFilled_iff: "isFilled SIZE cells \<longleftrightarrow> (\<forall>i < NCOUNT SIZE * NCOUNT SIZE. \<not> isEmpty (cells i))"
  by (auto simp: isFilled_def list_all_iff)

section \<open>The sweep\<close>

lemma fn_check_group:
  assumes "i < NCOUNT SIZE * NCOUNT SIZE"
  shows "fn_check cells c i (m_neighbors SIZE ty ! groupOf SIZE ty i) \<longleftrightarrow>
     (\<forall>j \<in> {0..<NCOUNT SIZE * NCOUNT SIZE}.
        j \<noteq> i \<and> groupOf SIZE ty j = groupOf SIZE ty i \<longrightarrow>
        \<not> (isEmpty (cells j) \<and> isPossible c (cells j)))"
  unfolding fn_check_def list_all_iff set_m_neighbors_of[OF assms] by auto

lemma assignable_iff:
  assumes "i < NCOUNT SIZE * NCOUNT SIZE"
  shows "assignable SIZE cells i c \<longleftrightarrow>
     isOnlyOne (cells i)
     \<or> fn_check cells c i (m_neighbors SIZE ROW ! row SIZE i)
     \<or> fn_check cells c i (m_neighbors SIZE COL ! col SIZE i)
     \<or> fn_check cells c i (m_neighbors SIZE BOX ! box SIZE i)"
  using fn_check_group[OF assms, of cells c ROW] fn_check_group[OF assms, of cells c COL]
    fn_check_group[OF assms, of cells c BOX]
  by (simp add: assignable_def hiddenSingle_def)

lemma restrict_numbers_find:
  assumes "i < NCOUNT SIZE * NCOUNT SIZE"
  shows "restrict_numbers SIZE cells i numbers =
     (case find (assignable SIZE cells i) numbers of
        None \<Rightarrow> (False, cells)
      | Some c \<Rightarrow> (True, assigned SIZE cells i c))"
  by (induction numbers) (simp_all add: assignable_iff[OF assms])

lemma find_first_sorted:
  assumes "sorted xs" and "distinct xs" and "c \<in> set xs" and "P c"
    and "\<forall>c' \<in> set xs. c' < c \<longrightarrow> \<not> P c'"
  shows "find P xs = Some (c::nat)"
  using assms
proof (induction xs)
  case Nil
  then show ?case by simp
next
  case (Cons x xs)
  show ?case
  proof (cases "x = c")
    case True
    with Cons.prems show ?thesis by simp
  next
    case False
    with Cons.prems have "c \<in> set xs" by simp
    with Cons.prems(1) have "x \<le> c" by simp
    with False have "x < c" by simp
    with Cons.prems have "\<not> P x" by simp
    moreover have "find P xs = Some c"
      using Cons.prems \<open>c \<in> set xs\<close> by (intro Cons.IH) simp_all
    ultimately show ?thesis by simp
  qed
qed

lemma possibilities_sorted: "sorted (possibilities c)" "distinct (possibilities c)"
  by (cases c; simp)+

lemma length_filter_mono:
  "\<forall>x \<in> set xs. P x \<longrightarrow> Q x \<Longrightarrow> length (filter P xs) \<le> length (filter Q xs)"
  by (induction xs) auto

lemma restrict_cells_progress:
  assumes "restrict_cells SIZE is cells result = (result', cells')"
    and "\<forall>i \<in> set is. i < NCOUNT SIZE * NCOUNT SIZE"
  shows "result' \<longleftrightarrow> result \<or> (\<exists>i < NCOUNT SIZE * NCOUNT SIZE. isEmpty (cells i) \<and> \<not> isEmpty (cells' i))"
proof -
  note r = restrict_cells_countEmpty[OF assms]
  show ?thesis
  proof (cases "result' \<and> \<not> result")
    case True
    with r have lt: "countEmpty SIZE cells' < countEmpty SIZE cells" by simp
    have "\<exists>i < NCOUNT SIZE * NCOUNT SIZE. isEmpty (cells i) \<and> \<not> isEmpty (cells' i)"
    proof (rule ccontr)
      assume "\<not> ?thesis"
      then have "\<forall>i \<in> set [0..<NCOUNT SIZE * NCOUNT SIZE]. isEmpty (cells i) \<longrightarrow> isEmpty (cells' i)"
        by auto
      then have "length (filter (\<lambda>i. isEmpty (cells i)) [0..<NCOUNT SIZE * NCOUNT SIZE])
               \<le> length (filter (\<lambda>i. isEmpty (cells' i)) [0..<NCOUNT SIZE * NCOUNT SIZE])"
        by (rule length_filter_mono)
      with lt show False by (simp add: countEmpty_def)
    qed
    with True show ?thesis by simp
  next
    case False
    with r show ?thesis by auto
  qed
qed

section \<open>The contract of solve\<close>

lemma isSolvable_iff:
  "isSolvable SIZE cells \<longleftrightarrow> (\<forall>k < NCOUNT SIZE * NCOUNT SIZE. \<not> isInconsistent (cells k))"
  by (auto simp: isSolvable_def list_all_iff)

lemma isInconsistent_iff: "isInconsistent c \<longleftrightarrow> c = Empty {}"
  by (cases c) auto

lemma isFilled_imp_isSolvable: "isFilled SIZE cells \<Longrightarrow> isSolvable SIZE cells"
  by (auto simp: isFilled_iff isSolvable_iff isInconsistent_iff)

lemma solve_filled: "isFilled SIZE cells \<Longrightarrow> solve SIZE cells = Some (True, cells)"
  by (subst solve.simps) (simp add: isFilled_imp_isSolvable)

lemma solve_unsolvable: "\<not> isSolvable SIZE cells \<Longrightarrow> solve SIZE cells = Some (False, cells)"
  by (subst solve.simps) simp

lemma solve_step:
  "\<not> isFilled SIZE cells \<Longrightarrow> isSolvable SIZE cells \<Longrightarrow>
   solve SIZE cells = (case restrict SIZE cells of
                         (True, cells') \<Rightarrow> solve SIZE cells'
                       | (False, cells') \<Rightarrow> assumeNumber SIZE cells')"
  by (subst solve.simps) simp

text \<open>A cell without candidates stays as it is.\<close>

lemma dead_disableAll: "cells k = Empty {} \<Longrightarrow> disableAll num nbs cells k = Empty {}"
  by (simp add: disableAll_apply)

lemma dead_updatePossibilities:
  "cells k = Empty {} \<Longrightarrow> updatePossibilities SIZE cells index k = Empty {}"
  by (simp add: updatePossibilities_def Let_def dead_disableAll)

lemma dead_assigned:
  "cells k = Empty {} \<Longrightarrow> index \<noteq> k \<Longrightarrow> assigned SIZE cells index num k = Empty {}"
  by (simp add: dead_updatePossibilities)

lemma dead_restrict_cells:
  "cells k = Empty {} \<Longrightarrow> snd (restrict_cells SIZE is cells result) k = Empty {}"
proof (induction "is" arbitrary: cells result)
  case Nil
  then show ?case by simp
next
  case (Cons i "is")
  show ?case
  proof (cases "isEmpty (cells i)")
    case False
    with Cons show ?thesis by simp
  next
    case True
    obtain b c1 where rn: "restrict_numbers SIZE cells i (possibilities (cells i)) = (b, c1)"
      by (cases "restrict_numbers SIZE cells i (possibilities (cells i))")
    have "c1 k = Empty {}"
    proof (cases b)
      case False
      with rn have "restrict_numbers SIZE cells i (possibilities (cells i)) = (False, c1)" by simp
      then have "c1 = cells" by (rule restrict_numbers_False)
      with Cons.prems show ?thesis by simp
    next
      case True
      with rn have t: "restrict_numbers SIZE cells i (possibilities (cells i)) = (True, c1)" by simp
      then obtain num where n: "num \<in> set (possibilities (cells i))"
        and c1: "c1 = assigned SIZE cells i num"
        using restrict_numbers_True by blast
      from n Cons.prems have "i \<noteq> k" by auto
      with Cons.prems show ?thesis unfolding c1 by (rule dead_assigned)
    qed
    from Cons.IH[of c1, OF this] rn True show ?thesis by (cases b) simp_all
  qed
qed

lemma dead_restrict: "cells k = Empty {} \<Longrightarrow> snd (restrict SIZE cells) k = Empty {}"
  by (simp add: restrict_def dead_restrict_cells)

lemma dead_propagateToFixpoint:
  "cells k = Empty {} \<Longrightarrow> propagateToFixpoint SIZE cells k = Empty {}"
proof (induction SIZE cells rule: propagateToFixpoint.induct)
  case (1 SIZE cells)
  obtain b c where r: "restrict SIZE cells = (b, c)" by (cases "restrict SIZE cells")
  have c: "c k = Empty {}" using dead_restrict[of cells k SIZE, OF 1(2)] r by simp
  show ?case
  proof (cases b)
    case True
    with 1(1)[OF r[symmetric]] c r show ?thesis
      by (subst propagateToFixpoint.simps) simp
  next
    case False
    with c r show ?thesis by (subst propagateToFixpoint.simps) simp
  qed
qed

lemma assumeNumber_dead:
  assumes k: "k < NCOUNT SIZE * NCOUNT SIZE" and dead: "cells k = Empty {}"
  shows "assumeNumber SIZE cells = Some (False, cells)"
proof -
  have "\<not> isFilled SIZE cells" using k dead by (auto simp: isFilled_iff)
  then obtain index where f: "find_if_isEmpty SIZE cells = Some index"
    using find_if_isEmpty_None[of SIZE cells] by auto
  have "assumeNumber_loop SIZE cells index (possibilities (cells index)) = Some (False, cells)"
  proof (rule assumeNumber_loop_all_fail, rule ballI)
    fix p assume p: "p \<in> set (possibilities (cells index))"
    with dead have "index \<noteq> k" by auto
    with dead have "assigned SIZE cells index p k = Empty {}" by (rule dead_assigned)
    with k have "\<not> isSolvable SIZE (assigned SIZE cells index p)"
      by (auto simp: isSolvable_iff isInconsistent_iff)
    then show "\<exists>c. solve SIZE (assigned SIZE cells index p) = Some (False, c)"
      by (simp add: solve_unsolvable)
  qed
  with f show ?thesis by (simp add: assumeNumber.simps)
qed

lemma restrict_filled: "isFilled SIZE cells \<Longrightarrow> restrict SIZE cells = (False, cells)"
proof -
  have "\<forall>i \<in> set is. \<not> isEmpty (cells i) \<Longrightarrow> restrict_cells SIZE is cells r = (r, cells)" for "is" r
    by (induction "is") simp_all
  then show "isFilled SIZE cells \<Longrightarrow> restrict SIZE cells = (False, cells)"
    by (simp add: restrict_def isFilled_def list_all_iff)
qed

lemma solve_follows_contract:
  "map_option fst (solve SIZE cells) =
     (if isFilled SIZE (propagateToFixpoint SIZE cells) then Some True
      else map_option fst (assumeNumber SIZE (propagateToFixpoint SIZE cells)))"
proof (induction SIZE cells rule: propagateToFixpoint.induct)
  case (1 SIZE cells)
  let ?fix = "propagateToFixpoint SIZE cells"
  obtain b c where r: "restrict SIZE cells = (b, c)" by (cases "restrict SIZE cells")
  consider (filled) "isFilled SIZE cells"
    | (dead) "\<not> isFilled SIZE cells" "\<not> isSolvable SIZE cells"
    | (live) "\<not> isFilled SIZE cells" "isSolvable SIZE cells" by blast
  then show ?case
  proof cases
    case filled
    then have "?fix = cells"
      by (subst propagateToFixpoint.simps) (simp add: restrict_filled)
    with filled show ?thesis by (simp add: solve_filled)
  next
    case dead
    then obtain k where k: "k < NCOUNT SIZE * NCOUNT SIZE" and d: "cells k = Empty {}"
      by (auto simp: isSolvable_iff isInconsistent_iff)
    have fk: "?fix k = Empty {}" using d by (rule dead_propagateToFixpoint)
    with k have "\<not> isFilled SIZE ?fix" by (auto simp: isFilled_iff)
    moreover have "assumeNumber SIZE ?fix = Some (False, ?fix)"
      using k fk by (rule assumeNumber_dead)
    ultimately show ?thesis using dead by (simp add: solve_unsolvable)
  next
    case live
    show ?thesis
    proof (cases b)
      case True
      with r have "?fix = propagateToFixpoint SIZE c"
        by (subst propagateToFixpoint.simps) simp
      moreover from live r True have "solve SIZE cells = solve SIZE c"
        by (simp add: solve_step)
      ultimately show ?thesis using 1[OF r[symmetric]] True by simp
    next
      case False
      with r have "restrict SIZE cells = (False, c)" by simp
      then have c: "c = cells" by (rule restrict_False_same)
      with r False have "?fix = cells"
        by (subst propagateToFixpoint.simps) simp
      moreover from live r False c have "solve SIZE cells = assumeNumber SIZE cells"
        by (simp add: solve_step)
      ultimately show ?thesis using live by simp
    qed
  qed
qed

lemma solve_True_filled:
  "solve SIZE cells = Some (True, cells') \<Longrightarrow> isFilled SIZE cells'"
  "assumeNumber SIZE cells = Some (True, cells') \<Longrightarrow> isFilled SIZE cells'"
  "assumeNumber_loop SIZE cells index poss = Some (True, cells') \<Longrightarrow> isFilled SIZE cells'"
proof (induction SIZE cells and SIZE cells and SIZE cells index poss
    arbitrary: cells' and cells' and cells'
    rule: solve_assumeNumber_assumeNumber_loop.induct)
  case (1 SIZE cells)
  show ?case
  proof (cases "isFilled SIZE cells \<or> \<not> isSolvable SIZE cells")
    case True
    with 1(3) show ?thesis by (subst (asm) solve.simps) auto
  next
    case False
    obtain b c where r: "restrict SIZE cells = (b, c)" by (cases "restrict SIZE cells")
    from False r 1(3) have s: "(if b then solve SIZE c else assumeNumber SIZE c) = Some (True, cells')"
      by (subst (asm) solve.simps) (auto split: bool.splits)
    show ?thesis
    proof (cases b)
      case True
      with s 1(1)[OF refl False r[symmetric]] show ?thesis by simp
    next
      case b: False
      with s 1(2)[OF refl False r[symmetric]] show ?thesis by simp
    qed
  qed
next
  case (2 SIZE cells)
  from 2(2) obtain index where f: "find_if_isEmpty SIZE cells = Some index"
    by (cases "find_if_isEmpty SIZE cells") (simp_all add: assumeNumber.simps)
  with 2(2) have "assumeNumber_loop SIZE cells index (possibilities (cells index)) = Some (True, cells')"
    by (simp add: assumeNumber.simps)
  with 2(1)[OF f] show ?case by simp
next
  case (3 SIZE cells index)
  then show ?case by simp
next
  case (4 SIZE cells index poss_number poss)
  let ?c1 = "assigned SIZE cells index poss_number"
  obtain b c2 where s: "solve SIZE ?c1 = Some (b, c2)"
    using solve_Some[of SIZE ?c1] by blast
  show ?case
  proof (cases b)
    case True
    with s have s': "solve SIZE ?c1 = Some (True, c2)" by simp
    with 4(3) have "c2 = cells'" by (simp add: Let_def)
    with s' show ?thesis using 4(1)[OF refl refl] by simp
  next
    case False
    with s have s': "solve SIZE ?c1 = Some (False, c2)" by simp
    with 4(3) have "assumeNumber_loop SIZE cells index poss = Some (True, cells')"
      by (simp add: Let_def)
    then show ?thesis by (rule 4(2)[OF refl refl s' refl refl])
  qed
qed

lemma restrict_propagateToFixpoint:
  "restrict SIZE (propagateToFixpoint SIZE cells)
   = (False, propagateToFixpoint SIZE cells)"
proof (induction SIZE cells rule: propagateToFixpoint.induct)
  case (1 SIZE cells)
  obtain b c where r: "restrict SIZE cells = (b, c)" by (cases "restrict SIZE cells")
  show ?case
  proof (cases b)
    case True
    with r have "propagateToFixpoint SIZE cells = propagateToFixpoint SIZE c"
      by (subst propagateToFixpoint.simps) simp
    with 1[OF r[symmetric]] True show ?thesis by simp
  next
    case False
    with r have "restrict SIZE cells = (False, c)" by simp
    then have c: "c = cells" by (rule restrict_False_same)
    with r False have "propagateToFixpoint SIZE cells = cells"
      by (subst propagateToFixpoint.simps) simp
    with r False c show ?thesis by simp
  qed
qed

lemma solve_follows_contract_state:
  "isSolvable SIZE (propagateToFixpoint SIZE cells) \<Longrightarrow>
   solve SIZE cells =
     (if isFilled SIZE (propagateToFixpoint SIZE cells)
      then Some (True, propagateToFixpoint SIZE cells)
      else assumeNumber SIZE (propagateToFixpoint SIZE cells))"
proof (induction SIZE cells rule: propagateToFixpoint.induct)
  case (1 SIZE cells)
  let ?fix = "propagateToFixpoint SIZE cells"
  obtain b c where r: "restrict SIZE cells = (b, c)" by (cases "restrict SIZE cells")
  consider (filled) "isFilled SIZE cells"
    | (dead) "\<not> isFilled SIZE cells" "\<not> isSolvable SIZE cells"
    | (live) "\<not> isFilled SIZE cells" "isSolvable SIZE cells" by blast
  then show ?case
  proof cases
    case filled
    then have "?fix = cells"
      by (subst propagateToFixpoint.simps) (simp add: restrict_filled)
    with filled show ?thesis by (simp add: solve_filled)
  next
    case dead
    then obtain k where k: "k < NCOUNT SIZE * NCOUNT SIZE" and d: "cells k = Empty {}"
      by (auto simp: isSolvable_iff isInconsistent_iff)
    have "?fix k = Empty {}" using d by (rule dead_propagateToFixpoint)
    with k have "\<not> isSolvable SIZE ?fix" by (auto simp: isSolvable_iff isInconsistent_iff)
    with 1(2) show ?thesis by simp
  next
    case live
    show ?thesis
    proof (cases b)
      case True
      with r have f: "?fix = propagateToFixpoint SIZE c"
        by (subst propagateToFixpoint.simps) simp
      moreover from live r True have "solve SIZE cells = solve SIZE c"
        by (simp add: solve_step)
      ultimately show ?thesis using 1(1)[OF r[symmetric]] 1(2) True by simp
    next
      case False
      with r have "restrict SIZE cells = (False, c)" by simp
      then have c: "c = cells" by (rule restrict_False_same)
      with r False have "?fix = cells"
        by (subst propagateToFixpoint.simps) simp
      moreover from live r False c have "solve SIZE cells = assumeNumber SIZE cells"
        by (simp add: solve_step)
      ultimately show ?thesis using live by simp
    qed
  qed
qed

section \<open>The invariant of the solver\<close>

lemma peers_sym: "peers SIZE i j \<Longrightarrow> peers SIZE j i"
  by (auto simp: peers_def)

lemma inGroupsOf_peers:
  "inGroupsOf SIZE i j \<longleftrightarrow> j < NCOUNT SIZE * NCOUNT SIZE \<and> (j = i \<or> peers SIZE i j)"
  by (auto simp: inGroupsOf_def peers_def)

lemma legalD:
  assumes "legal SIZE sol"
  shows "length sol = NCOUNT SIZE * NCOUNT SIZE"
    and "i < NCOUNT SIZE * NCOUNT SIZE \<Longrightarrow> 1 \<le> sol ! i \<and> sol ! i \<le> NCOUNT SIZE"
    and "i < NCOUNT SIZE * NCOUNT SIZE \<Longrightarrow> j < NCOUNT SIZE * NCOUNT SIZE \<Longrightarrow> peers SIZE i j
         \<Longrightarrow> sol ! j \<noteq> sol ! i"
  using assms by (auto simp: legal_def peers_def)

lemma excludes_disable [simp]: "excludes d (disable e c) \<longleftrightarrow> excludes d c \<or> (isEmpty c \<and> d = e)"
  by (cases c) (auto simp: excludes_def)

lemma admits_disable: "admits d c \<Longrightarrow> d \<noteq> e \<Longrightarrow> admits d (disable e c)"
  by (cases c) (auto simp: admits_def)

text \<open>The state after an assignment, cell by cell.\<close>

lemma assigned_apply:
  assumes "i < NCOUNT SIZE * NCOUNT SIZE"
  shows "updatePossibilities SIZE (cells(i := Filled c)) i j =
     (if j = i then Filled c
      else if j < NCOUNT SIZE * NCOUNT SIZE \<and> peers SIZE i j then disable c (cells j)
      else cells j)"
  by (auto simp: updatePossibilities_apply[OF assms] inGroupsOf_peers)

lemma wellFormed_assigned:
  assumes wf: "wellFormed SIZE cells" and i: "i < NCOUNT SIZE * NCOUNT SIZE"
    and e: "cells i = Empty cs" and c: "c \<in> cs"
  shows "wellFormed SIZE (assigned SIZE cells i c)"
  unfolding wellFormed_def
proof (intro allI impI)
  fix k assume k: "k < NCOUNT SIZE * NCOUNT SIZE"
  let ?new = "assigned SIZE cells i c"
  note new = assigned_apply[OF i, of cells c]
  have okk: "cellOk SIZE cells k" using wf k by (simp add: wellFormed_def)
  have "cellOk SIZE cells i" using wf i by (simp add: wellFormed_def)
  with e have oki: "cs \<subseteq> {1..NCOUNT SIZE}" by (simp add: cellOk_def)
  have clash: "d \<noteq> c" if "j < NCOUNT SIZE * NCOUNT SIZE" "peers SIZE i j" "cells j = Filled d" for j d
  proof -
    have "cellOk SIZE cells j" using wf that(1) by (simp add: wellFormed_def)
    with that(3) i peers_sym[OF that(2)] have "excludes d (cells i)"
      by (auto simp: cellOk_def)
    with e c show ?thesis by (auto simp: excludes_def)
  qed
  show "cellOk SIZE ?new k"
  proof (cases "k = i")
    case True
    have "excludes c (?new j)" if "j < NCOUNT SIZE * NCOUNT SIZE" "peers SIZE i j" for j
    proof -
      have "j \<noteq> i" using that(2) by (simp add: peers_def)
      then have "?new j = disable c (cells j)" using that by (simp add: new)
      then show ?thesis using clash[OF that] by (cases "cells j") (auto simp: excludes_def)
    qed
    with True oki c show ?thesis by (auto simp: cellOk_def new)
  next
    case False
    show ?thesis
    proof (cases "cells k")
      case (Empty cs')
      with okk have "cs' \<subseteq> {1..NCOUNT SIZE}" by (simp add: cellOk_def)
      with False Empty show ?thesis by (auto simp: cellOk_def new)
    next
      case (Filled d)
      with False have nk: "?new k = Filled d" by (simp add: new)
      from okk Filled have range: "1 \<le> d \<and> d \<le> NCOUNT SIZE"
        and old: "\<And>j. j < NCOUNT SIZE * NCOUNT SIZE \<Longrightarrow> peers SIZE k j \<Longrightarrow> excludes d (cells j)"
        by (auto simp: cellOk_def)
      have "excludes d (?new j)" if j: "j < NCOUNT SIZE * NCOUNT SIZE" and p: "peers SIZE k j" for j
      proof (cases "j = i")
        case True
        with p have "peers SIZE i k" by (simp add: peers_sym)
        from clash[OF k this Filled] True show ?thesis by (simp add: new excludes_def)
      next
        case False
        with old[OF j p] j show ?thesis by (simp add: new)
      qed
      with nk range show ?thesis by (simp add: cellOk_def)
    qed
  qed
qed

lemma agrees_assigned:
  assumes ag: "agrees SIZE cells sol" and l: "legal SIZE sol" and i: "i < NCOUNT SIZE * NCOUNT SIZE"
  shows "agrees SIZE (assigned SIZE cells i (sol ! i)) sol"
  unfolding agrees_def
proof (intro allI impI)
  fix k assume k: "k < NCOUNT SIZE * NCOUNT SIZE"
  have a: "admits (sol ! k) (cells k)" using ag k by (simp add: agrees_def)
  show "admits (sol ! k) (assigned SIZE cells i (sol ! i) k)"
  proof (cases "k = i")
    case True
    then show ?thesis by (simp add: assigned_apply[OF i] admits_def)
  next
    case False
    show ?thesis
    proof (cases "peers SIZE i k")
      case True
      then have "sol ! k \<noteq> sol ! i" using legalD(3)[OF l i k] by simp
      with a True False k show ?thesis by (simp add: assigned_apply[OF i] admits_disable)
    next
      case p: False
      with a False show ?thesis by (simp add: assigned_apply[OF i])
    qed
  qed
qed

text \<open>In a legal completion every digit occurs in every group.\<close>

lemma legal_group_onto:
  assumes l: "legal SIZE sol" and g: "g < NCOUNT SIZE" and c: "1 \<le> c" "c \<le> NCOUNT SIZE"
  shows "\<exists>k < NCOUNT SIZE * NCOUNT SIZE. groupOf SIZE ty k = g \<and> sol ! k = c"
proof -
  let ?G = "set (m_neighbors SIZE ty ! g)"
  have G: "?G = {j. j < NCOUNT SIZE * NCOUNT SIZE \<and> groupOf SIZE ty j = g}"
    by (rule set_m_neighbors[OF g])
  have cardG: "card ?G = NCOUNT SIZE"
    using distinct_card[OF distinct_m_neighbors[OF g, of ty]] g by simp
  have inj: "inj_on (\<lambda>k. sol ! k) ?G"
  proof (rule inj_onI, rule ccontr)
    fix x y assume x: "x \<in> ?G" and y: "y \<in> ?G" and eq: "sol ! x = sol ! y" and ne: "x \<noteq> y"
    from x y have "groupOf SIZE ty y = groupOf SIZE ty x" by (simp add: G)
    then have "\<exists>ty. groupOf SIZE ty y = groupOf SIZE ty x" ..
    then have "peers SIZE x y" using ne by (simp add: peers_def same_group_cases)
    with legalD(3)[OF l, of x y] x y eq show False by (simp add: G)
  qed
  have "(\<lambda>k. sol ! k) ` ?G \<subseteq> {1..NCOUNT SIZE}"
    using legalD(2)[OF l] by (auto simp: G)
  moreover have "card ((\<lambda>k. sol ! k) ` ?G) = card {1..NCOUNT SIZE}"
    using card_image[OF inj] cardG by simp
  ultimately have "(\<lambda>k. sol ! k) ` ?G = {1..NCOUNT SIZE}"
    by (intro card_subset_eq) simp_all
  with c have "c \<in> (\<lambda>k. sol ! k) ` ?G" by simp
  then show ?thesis by (auto simp: G)
qed

text \<open>A candidate that the sweep may assign is the digit of every completion that the
  grid agrees with.\<close>

lemma assignable_forced:
  assumes wf: "wellFormed SIZE cells" and ag: "agrees SIZE cells sol" and l: "legal SIZE sol"
    and i: "i < NCOUNT SIZE * NCOUNT SIZE" and e: "cells i = Empty cs" and c: "c \<in> cs"
    and a: "assignable SIZE cells i c"
  shows "c = sol ! i"
proof -
  have si: "sol ! i \<in> cs" using ag i e by (auto simp: agrees_def admits_def)
  have "cellOk SIZE cells i" using wf i by (simp add: wellFormed_def)
  with e c have range: "1 \<le> c" "c \<le> NCOUNT SIZE" by (auto simp: cellOk_def)
  from a consider (naked) "isOnlyOne (cells i)" | (hidden) "hiddenSingle SIZE cells i c"
    by (auto simp: assignable_def)
  then show ?thesis
  proof cases
    case naked
    with e have "card cs = 1" by simp
    then obtain x where "cs = {x}" by (auto simp: card_1_singleton_iff)
    with c si show ?thesis by simp
  next
    case hidden
    then obtain ty where "\<forall>j \<in> {0..<NCOUNT SIZE * NCOUNT SIZE}.
        j \<noteq> i \<and> groupOf SIZE ty j = groupOf SIZE ty i \<longrightarrow>
        \<not> (isEmpty (cells j) \<and> isPossible c (cells j))"
      unfolding hiddenSingle_def by blast
    then have h: "\<And>j. j < NCOUNT SIZE * NCOUNT SIZE \<Longrightarrow> j \<noteq> i \<Longrightarrow>
        groupOf SIZE ty j = groupOf SIZE ty i \<Longrightarrow> \<not> (isEmpty (cells j) \<and> isPossible c (cells j))"
      by simp
    obtain k where k: "k < NCOUNT SIZE * NCOUNT SIZE"
      and gk: "groupOf SIZE ty k = groupOf SIZE ty i" and sk: "sol ! k = c"
      using legal_group_onto[OF l groupOf_less[OF i] range] by blast
    show ?thesis
    proof (cases "k = i")
      case True
      with sk show ?thesis by simp
    next
      case False
      have "\<exists>ty. groupOf SIZE ty k = groupOf SIZE ty i" using gk ..
      then have p: "peers SIZE k i" "peers SIZE i k"
        using False by (auto simp: peers_def same_group_cases)
      have adm: "admits c (cells k)" using ag k sk by (auto simp: agrees_def)
      show ?thesis
      proof (cases "cells k")
        case (Empty cs')
        with adm have "isEmpty (cells k) \<and> isPossible c (cells k)" by (simp add: admits_def)
        with h[OF k False gk] show ?thesis by simp
      next
        case (Filled d)
        with adm have d: "d = c" by (simp add: admits_def)
        have "cellOk SIZE cells k" using wf k by (simp add: wellFormed_def)
        with Filled d i p(1) have "excludes c (cells i)" by (auto simp: cellOk_def)
        with e c show ?thesis by (simp add: excludes_def)
      qed
    qed
  qed
qed

lemma wellFormed_finite:
  assumes "wellFormed SIZE cells" and "i < NCOUNT SIZE * NCOUNT SIZE" and "cells i = Empty cs"
  shows "finite cs"
proof -
  have "cellOk SIZE cells i" using assms(1,2) by (simp add: wellFormed_def)
  with assms(3) have "cs \<subseteq> {1..NCOUNT SIZE}" by (simp add: cellOk_def)
  then show ?thesis by (rule finite_subset) simp
qed

lemma find_SomeD: "find P xs = Some x \<Longrightarrow> x \<in> set xs \<and> P x"
  by (induction xs) (auto split: if_splits)

lemma restrict_cells_wellFormed:
  assumes "wellFormed SIZE cells" and "\<forall>i \<in> set is. i < NCOUNT SIZE * NCOUNT SIZE"
  shows "wellFormed SIZE (snd (restrict_cells SIZE is cells result))"
  using assms
proof (induction "is" arbitrary: cells result)
  case Nil
  then show ?case by simp
next
  case (Cons i "is")
  then have i: "i < NCOUNT SIZE * NCOUNT SIZE" by simp
  show ?case
  proof (cases "cells i")
    case (Filled d)
    with Cons show ?thesis by simp
  next
    case (Empty cs)
    have fin: "finite cs" using Cons.prems(1) i Empty by (rule wellFormed_finite)
    show ?thesis
    proof (cases "find (assignable SIZE cells i) (possibilities (cells i))")
      case None
      with Cons Empty show ?thesis by (simp add: restrict_numbers_find[OF i])
    next
      case (Some c)
      then have "c \<in> cs" using Empty fin by (auto dest: find_SomeD)
      then have "wellFormed SIZE (assigned SIZE cells i c)"
        by (rule wellFormed_assigned[OF Cons.prems(1) i Empty])
      with Cons Some Empty show ?thesis by (simp add: restrict_numbers_find[OF i])
    qed
  qed
qed

lemma restrict_cells_agrees:
  assumes "wellFormed SIZE cells" and "agrees SIZE cells sol" and "legal SIZE sol"
    and "\<forall>i \<in> set is. i < NCOUNT SIZE * NCOUNT SIZE"
  shows "agrees SIZE (snd (restrict_cells SIZE is cells result)) sol"
  using assms
proof (induction "is" arbitrary: cells result)
  case Nil
  then show ?case by simp
next
  case (Cons i "is")
  then have i: "i < NCOUNT SIZE * NCOUNT SIZE" by simp
  show ?case
  proof (cases "cells i")
    case (Filled d)
    with Cons show ?thesis by simp
  next
    case (Empty cs)
    have fin: "finite cs" using Cons.prems(1) i Empty by (rule wellFormed_finite)
    show ?thesis
    proof (cases "find (assignable SIZE cells i) (possibilities (cells i))")
      case None
      with Cons Empty show ?thesis by (simp add: restrict_numbers_find[OF i])
    next
      case (Some c)
      then have c: "c \<in> cs" and a: "assignable SIZE cells i c"
        using Empty fin by (auto dest: find_SomeD)
      have "c = sol ! i"
        by (rule assignable_forced[OF Cons.prems(1,2,3) i Empty c a])
      then have "agrees SIZE (assigned SIZE cells i c) sol"
        using agrees_assigned[OF Cons.prems(2,3) i] by simp
      moreover have "wellFormed SIZE (assigned SIZE cells i c)"
        by (rule wellFormed_assigned[OF Cons.prems(1) i Empty c])
      ultimately show ?thesis
        using Cons Some Empty by (simp add: restrict_numbers_find[OF i])
    qed
  qed
qed

lemma restrict_wellFormed:
  "wellFormed SIZE cells \<Longrightarrow> wellFormed SIZE (snd (restrict SIZE cells))"
  unfolding restrict_def by (rule restrict_cells_wellFormed) simp_all

lemma restrict_agrees:
  "wellFormed SIZE cells \<Longrightarrow> agrees SIZE cells sol \<Longrightarrow> legal SIZE sol \<Longrightarrow>
   agrees SIZE (snd (restrict SIZE cells)) sol"
  unfolding restrict_def by (rule restrict_cells_agrees) simp_all

lemma agrees_isSolvable: "agrees SIZE cells sol \<Longrightarrow> isSolvable SIZE cells"
  by (auto simp: agrees_def isSolvable_iff isInconsistent_iff admits_def)

section \<open>Completeness and soundness\<close>

text \<open>Completeness: on a grid that agrees with a legal completion, \<open>solve\<close> succeeds.\<close>

lemma solve_complete:
  "wellFormed SIZE cells \<Longrightarrow> agrees SIZE cells sol \<Longrightarrow> legal SIZE sol \<Longrightarrow>
     \<exists>cells'. solve SIZE cells = Some (True, cells')"
  "wellFormed SIZE cells \<Longrightarrow> agrees SIZE cells sol \<Longrightarrow> legal SIZE sol \<Longrightarrow>
     \<not> isFilled SIZE cells \<Longrightarrow> \<exists>cells'. assumeNumber SIZE cells = Some (True, cells')"
  "wellFormed SIZE cells \<Longrightarrow> agrees SIZE cells sol \<Longrightarrow> legal SIZE sol \<Longrightarrow>
     index < NCOUNT SIZE * NCOUNT SIZE \<Longrightarrow> isEmpty (cells index) \<Longrightarrow> sol ! index \<in> set poss \<Longrightarrow>
     \<exists>cells'. assumeNumber_loop SIZE cells index poss = Some (True, cells')"
proof (induction SIZE cells and SIZE cells and SIZE cells index poss
    rule: solve_assumeNumber_assumeNumber_loop.induct)
  case (1 SIZE cells)
  have solvable: "isSolvable SIZE cells" using 1(4) by (rule agrees_isSolvable)
  show ?case
  proof (cases "isFilled SIZE cells")
    case True
    then show ?thesis by (simp add: solve_filled)
  next
    case False
    then have nf: "\<not> (isFilled SIZE cells \<or> \<not> isSolvable SIZE cells)" using solvable by simp
    obtain b c where r: "restrict SIZE cells = (b, c)" by (cases "restrict SIZE cells")
    have c: "c = snd (restrict SIZE cells)" using r by simp
    have wf: "wellFormed SIZE c" unfolding c using 1(3) by (rule restrict_wellFormed)
    have ag: "agrees SIZE c sol" unfolding c using 1(3,4,5) by (rule restrict_agrees)
    show ?thesis
    proof (cases b)
      case True
      with r have r': "(True, c) = restrict SIZE cells" by simp
      from 1(1)[OF refl nf r' refl wf ag 1(5)] False solvable r True
      show ?thesis by (simp add: solve_step)
    next
      case b: False
      with r have r': "(False, c) = restrict SIZE cells" by simp
      then have "c = cells" using restrict_False_same[of SIZE cells c] by simp
      with False have "\<not> isFilled SIZE c" by simp
      from 1(2)[OF refl nf r' refl wf ag 1(5) this] False solvable r b
      show ?thesis by (simp add: solve_step)
    qed
  qed
next
  case (2 SIZE cells)
  from 2(5) obtain index where f: "find_if_isEmpty SIZE cells = Some index"
    using find_if_isEmpty_None[of SIZE cells] by auto
  then have i: "index < NCOUNT SIZE * NCOUNT SIZE" and e: "isEmpty (cells index)"
    using find_if_isEmpty_Some by blast+
  from e obtain cs where cs: "cells index = Empty cs" by (cases "cells index") simp_all
  have fin: "finite cs" using 2(2) i cs by (rule wellFormed_finite)
  have "sol ! index \<in> cs" using 2(3) i cs by (auto simp: agrees_def admits_def)
  then have "sol ! index \<in> set (possibilities (cells index))" using cs fin by simp
  from 2(1)[OF f 2(2,3,4) i e this] f show ?case by (simp add: assumeNumber.simps)
next
  case (3 SIZE cells index)
  then show ?case by simp
next
  case (4 SIZE cells index poss_number poss)
  let ?c1 = "assigned SIZE cells index poss_number"
  obtain b c2 where s: "solve SIZE ?c1 = Some (b, c2)"
    using solve_Some[of SIZE ?c1] by blast
  show ?case
  proof (cases b)
    case True
    with s show ?thesis by (simp add: Let_def)
  next
    case False
    with s have s': "solve SIZE ?c1 = Some (False, c2)" by simp
    have "poss_number \<noteq> sol ! index"
    proof
      assume eq: "poss_number = sol ! index"
      from 4(7) obtain cs where cs: "cells index = Empty cs" by (cases "cells index") simp_all
      have "sol ! index \<in> cs" using 4(4) 4(6) cs by (auto simp: agrees_def admits_def)
      then have "wellFormed SIZE ?c1" unfolding eq
        by (rule wellFormed_assigned[OF 4(3) 4(6) cs])
      moreover have "agrees SIZE ?c1 sol" unfolding eq by (rule agrees_assigned[OF 4(4,5,6)])
      ultimately have "\<exists>cells'. solve SIZE ?c1 = Some (True, cells')"
        using 4(1)[OF refl refl] 4(5) by simp
      with s' show False by simp
    qed
    with 4(8) have "sol ! index \<in> set poss" by auto
    from 4(2)[OF refl refl s' refl refl 4(3,4,5,6,7) this] s'
    show ?thesis by (simp add: Let_def)
  qed
qed

text \<open>Soundness: the grid that a successful \<open>solve\<close> leaves satisfies the invariant.\<close>

lemma solve_sound:
  "wellFormed SIZE cells \<Longrightarrow> solve SIZE cells = Some (True, cells') \<Longrightarrow> wellFormed SIZE cells'"
  "wellFormed SIZE cells \<Longrightarrow> assumeNumber SIZE cells = Some (True, cells') \<Longrightarrow>
     wellFormed SIZE cells'"
  "wellFormed SIZE cells \<Longrightarrow> index < NCOUNT SIZE * NCOUNT SIZE \<Longrightarrow>
     \<exists>cs. cells index = Empty cs \<and> set poss \<subseteq> cs \<Longrightarrow>
     assumeNumber_loop SIZE cells index poss = Some (True, cells') \<Longrightarrow> wellFormed SIZE cells'"
proof (induction SIZE cells and SIZE cells and SIZE cells index poss
    arbitrary: cells' and cells' and cells'
    rule: solve_assumeNumber_assumeNumber_loop.induct)
  case (1 SIZE cells)
  show ?case
  proof (cases "isFilled SIZE cells \<or> \<not> isSolvable SIZE cells")
    case True
    with 1(4) have "cells' = cells" by (subst (asm) solve.simps) auto
    with 1(3) show ?thesis by simp
  next
    case False
    obtain b c where r: "restrict SIZE cells = (b, c)" by (cases "restrict SIZE cells")
    have c: "c = snd (restrict SIZE cells)" using r by simp
    have wf: "wellFormed SIZE c" unfolding c using 1(3) by (rule restrict_wellFormed)
    from False r 1(4) have s: "(if b then solve SIZE c else assumeNumber SIZE c) = Some (True, cells')"
      by (subst (asm) solve.simps) (auto split: bool.splits)
    show ?thesis
    proof (cases b)
      case True
      with r have r': "(True, c) = restrict SIZE cells" by simp
      from s True have "solve SIZE c = Some (True, cells')" by simp
      then show ?thesis by (rule 1(1)[OF refl False r' refl wf])
    next
      case b: False
      with r have r': "(False, c) = restrict SIZE cells" by simp
      from s b have "assumeNumber SIZE c = Some (True, cells')" by simp
      then show ?thesis by (rule 1(2)[OF refl False r' refl wf])
    qed
  qed
next
  case (2 SIZE cells)
  from 2(3) obtain index where f: "find_if_isEmpty SIZE cells = Some index"
    by (cases "find_if_isEmpty SIZE cells") (simp_all add: assumeNumber.simps)
  then have i: "index < NCOUNT SIZE * NCOUNT SIZE" and e: "isEmpty (cells index)"
    using find_if_isEmpty_Some by blast+
  from e obtain cs where cs: "cells index = Empty cs" by (cases "cells index") simp_all
  have fin: "finite cs" using 2(2) i cs by (rule wellFormed_finite)
  then have sub: "\<exists>cs. cells index = Empty cs \<and> set (possibilities (cells index)) \<subseteq> cs"
    using cs by simp
  from 2(3) f have "assumeNumber_loop SIZE cells index (possibilities (cells index)) = Some (True, cells')"
    by (simp add: assumeNumber.simps)
  then show ?case by (rule 2(1)[OF f 2(2) i sub])
next
  case (3 SIZE cells index)
  then show ?case by simp
next
  case (4 SIZE cells index poss_number poss)
  let ?c1 = "assigned SIZE cells index poss_number"
  from 4(5) obtain cs where cs: "cells index = Empty cs" and p: "poss_number \<in> cs"
    and sub: "set poss \<subseteq> cs" by auto
  have wf1: "wellFormed SIZE ?c1" by (rule wellFormed_assigned[OF 4(3,4) cs p])
  obtain b c2 where s: "solve SIZE ?c1 = Some (b, c2)"
    using solve_Some[of SIZE ?c1] by blast
  show ?case
  proof (cases b)
    case True
    with s have s': "solve SIZE ?c1 = Some (True, c2)" by simp
    with 4(6) have "c2 = cells'" by (simp add: Let_def)
    with s' have "solve SIZE ?c1 = Some (True, cells')" by simp
    then show ?thesis using 4(1)[OF refl refl] wf1 by simp
  next
    case False
    with s have s': "solve SIZE ?c1 = Some (False, c2)" by simp
    with 4(6) have l: "assumeNumber_loop SIZE cells index poss = Some (True, cells')"
      by (simp add: Let_def)
    have "\<exists>cs. cells index = Empty cs \<and> set poss \<subseteq> cs" using cs sub by simp
    then show ?thesis using 4(2)[OF refl refl s' refl refl 4(3,4)] l by simp
  qed
qed

lemma wellFormed_filled_isCorrect:
  assumes wf: "wellFormed SIZE cells" and f: "isFilled SIZE cells"
  shows "isCorrect SIZE cells"
  unfolding isCorrect_iff_numbersDistinct numbersDistinct_def
proof (intro ballI impI)
  fix i j
  assume i: "i \<in> {0..<NCOUNT SIZE * NCOUNT SIZE}" and j: "j \<in> {0..<NCOUNT SIZE * NCOUNT SIZE}"
    and p: "j \<noteq> i \<and> (row SIZE j = row SIZE i \<or> col SIZE j = col SIZE i \<or> box SIZE j = box SIZE i)"
  from f i j obtain d e where d: "cells i = Filled d" and e: "cells j = Filled e"
    by (cases "cells i"; cases "cells j") (auto simp: isFilled_iff)
  have "cellOk SIZE cells i" using wf i by (simp add: wellFormed_def)
  with d j p have "excludes d (cells j)" by (auto simp: cellOk_def peers_def)
  with d e show "number (cells j) \<noteq> number (cells i)" by (simp add: excludes_def)
qed

section \<open>The grid that read leaves\<close>

lemma inRange_disable: "inRange SIZE c \<Longrightarrow> inRange SIZE (disable d c)"
  by (cases c) (auto simp: inRange_def)

lemma disable_Filled_iff [simp]: "disable e c = Filled d \<longleftrightarrow> c = Filled d"
  by (cases c) auto

lemma readInv_step:
  assumes inv: "readInv SIZE sol D cells" and l: "legal SIZE sol"
    and k: "k < NCOUNT SIZE * NCOUNT SIZE" and f: "cells k = Filled d"
  shows "readInv SIZE sol (insert k D) (updatePossibilities SIZE cells k)"
proof -
  let ?new = "updatePossibilities SIZE cells k"
  have new: "?new j = (if j < NCOUNT SIZE * NCOUNT SIZE \<and> peers SIZE k j then disable d (cells j)
                       else cells j)" for j
    using f by (auto simp: updatePossibilities_apply[OF k] inGroupsOf_peers)
  from inv have ag: "agrees SIZE cells sol"
    and rg: "\<And>i. i < NCOUNT SIZE * NCOUNT SIZE \<Longrightarrow> inRange SIZE (cells i)"
    and ex: "\<And>i e j. i \<in> D \<Longrightarrow> i < NCOUNT SIZE * NCOUNT SIZE \<Longrightarrow> cells i = Filled e \<Longrightarrow>
               j < NCOUNT SIZE * NCOUNT SIZE \<Longrightarrow> peers SIZE i j \<Longrightarrow> excludes e (cells j)"
    by (auto simp: readInv_def)
  have sk: "sol ! k = d" using ag k f by (auto simp: agrees_def admits_def)
  have "agrees SIZE ?new sol"
    unfolding agrees_def
  proof (intro allI impI)
    fix j assume j: "j < NCOUNT SIZE * NCOUNT SIZE"
    have a: "admits (sol ! j) (cells j)" using ag j by (simp add: agrees_def)
    show "admits (sol ! j) (?new j)"
    proof (cases "peers SIZE k j")
      case True
      then have "sol ! j \<noteq> d" using legalD(3)[OF l k j] sk by simp
      with a True j show ?thesis by (simp add: new admits_disable)
    next
      case False
      with a show ?thesis by (simp add: new)
    qed
  qed
  moreover have "\<forall>i < NCOUNT SIZE * NCOUNT SIZE. inRange SIZE (?new i)"
    using rg by (simp add: new inRange_disable)
  moreover have "\<forall>i \<in> insert k D. \<forall>e. i < NCOUNT SIZE * NCOUNT SIZE \<and> ?new i = Filled e \<longrightarrow>
            (\<forall>j < NCOUNT SIZE * NCOUNT SIZE. peers SIZE i j \<longrightarrow> excludes e (?new j))"
  proof (intro ballI allI impI)
    fix i e j
    assume i: "i \<in> insert k D" and ie: "i < NCOUNT SIZE * NCOUNT SIZE \<and> ?new i = Filled e"
      and j: "j < NCOUNT SIZE * NCOUNT SIZE" and p: "peers SIZE i j"
    from ie have ci: "cells i = Filled e" by (simp add: new split: if_splits)
    show "excludes e (?new j)"
    proof (cases "i = k")
      case True
      with ci f have e: "e = d" by simp
      from True p j have nj: "?new j = disable d (cells j)" by (simp add: new)
      show ?thesis
      proof (cases "cells j")
        case (Empty cs)
        with nj e show ?thesis by (simp add: excludes_def)
      next
        case (Filled x)
        then have "sol ! j = x" using ag j by (auto simp: agrees_def admits_def)
        moreover have "sol ! j \<noteq> sol ! k" using legalD(3)[OF l k j] p True by simp
        ultimately show ?thesis using nj e sk Filled by (simp add: excludes_def)
      qed
    next
      case False
      with i have "i \<in> D" by simp
      from ex[OF this _ ci j p] ie have "excludes e (cells j)" by simp
      then show ?thesis by (simp add: new)
    qed
  qed
  ultimately show ?thesis by (simp add: readInv_def)
qed

lemma readInv_skip:
  assumes "readInv SIZE sol D cells" and "isEmpty (cells k)"
  shows "readInv SIZE sol (insert k D) cells"
  using assms by (auto simp: readInv_def)

lemma readInv_read_update:
  assumes "readInv SIZE sol D cells" and "legal SIZE sol"
    and "\<forall>i \<in> set is. i < NCOUNT SIZE * NCOUNT SIZE"
  shows "readInv SIZE sol (D \<union> set is) (read_update SIZE is cells)"
  using assms
proof (induction "is" arbitrary: D cells)
  case Nil
  then show ?case by (simp add: read_update_def)
next
  case (Cons k "is")
  then have k: "k < NCOUNT SIZE * NCOUNT SIZE" by simp
  let ?c1 = "if \<not> isEmpty (cells k) then updatePossibilities SIZE cells k else cells"
  have "readInv SIZE sol (insert k D) ?c1"
  proof (cases "cells k")
    case (Empty cs)
    then show ?thesis using readInv_skip[OF Cons.prems(1), of k] by simp
  next
    case (Filled d)
    then show ?thesis using readInv_step[OF Cons.prems(1,2) k Filled] by simp
  qed
  from Cons.IH[OF this Cons.prems(2)] Cons.prems(3)
  have "readInv SIZE sol (insert k D \<union> set is) (read_update SIZE is ?c1)" by simp
  moreover have "read_update SIZE (k # is) cells = read_update SIZE is ?c1"
    by (simp add: read_update_def)
  ultimately show ?case by simp
qed

lemma readInv_all:
  assumes "readInv SIZE sol {0..<NCOUNT SIZE * NCOUNT SIZE} cells"
  shows "wellFormed SIZE cells \<and> agrees SIZE cells sol"
proof -
  have "cellOk SIZE cells i" if i: "i < NCOUNT SIZE * NCOUNT SIZE" for i
  proof (cases "cells i")
    case (Empty cs)
    from assms i have "inRange SIZE (cells i)" by (simp add: readInv_def)
    with Empty show ?thesis by (simp add: cellOk_def inRange_def)
  next
    case (Filled d)
    from assms i have "inRange SIZE (cells i)" by (simp add: readInv_def)
    moreover from assms i Filled
    have "\<forall>j < NCOUNT SIZE * NCOUNT SIZE. peers SIZE i j \<longrightarrow> excludes d (cells j)"
      by (simp add: readInv_def)
    ultimately show ?thesis using Filled by (simp add: cellOk_def inRange_def)
  qed
  with assms show ?thesis by (simp add: wellFormed_def readInv_def)
qed

text \<open>The second loop of \<open>read\<close> keeps every cell Filled or Empty as it is, with its digit.\<close>

lemma updatePossibilities_Filled_iff [simp]:
  "updatePossibilities SIZE cells index j = Filled d \<longleftrightarrow> cells j = Filled d"
  by (simp add: updatePossibilities_def Let_def disableAll_apply)

lemma read_update_Filled_iff:
  "read_update SIZE is cells j = Filled d \<longleftrightarrow> cells j = Filled d"
  unfolding read_update_def by (induction "is" arbitrary: cells) simp_all

lemma read_update_isEmpty: "isEmpty (read_update SIZE is cells j) = isEmpty (cells j)"
  unfolding read_update_def by (induction "is" arbitrary: cells) simp_all

text \<open>The first loop of \<open>read\<close>.\<close>

lemma read_cells_True:
  assumes "read_cells SIZE is stream cells = (True, cells')" and "distinct is"
  shows "\<forall>k < length is. k < length stream \<and> inputCell SIZE (stream ! k) = Some (cells' (is ! k))"
  using assms
proof (induction SIZE "is" stream cells rule: read_cells.induct)
  case (1 SIZE stream cells)
  then show ?case by simp
next
  case (2 SIZE i "is" cells)
  then show ?case by simp
next
  case (3 SIZE i "is" token stream cells)
  from 3(2) obtain c where c: "inputCell SIZE token = Some c"
    by (cases "inputCell SIZE token") simp_all
  with 3(2) have r: "read_cells SIZE is stream (cells(i := c)) = (True, cells')" by simp
  from 3(3) have d: "distinct is" and ni: "i \<notin> set is" by simp_all
  note ih = 3(1)[OF c r d]
  have keep: "read_cells SIZE js s cs = (True, cs') \<Longrightarrow> i \<notin> set js \<Longrightarrow> cs' i = cs i" for js s cs cs'
    by (induction SIZE js s cs rule: read_cells.induct) (auto split: option.splits)
  have ci: "cells' i = c" using keep[OF r ni] by simp
  show ?case
  proof (intro allI impI)
    fix k assume k: "k < length (i # is)"
    show "k < length (token # stream) \<and> inputCell SIZE ((token # stream) ! k) = Some (cells' ((i # is) ! k))"
    proof (cases k)
      case 0
      with c ci show ?thesis by simp
    next
      case (Suc k')
      with k ih show ?thesis by simp
    qed
  qed
qed

lemma read_True:
  assumes "read SIZE stream cells0 = (True, cells)"
  obtains cells1 where "cells = read_update SIZE [0..<NCOUNT SIZE * NCOUNT SIZE] cells1"
    and "\<forall>i < NCOUNT SIZE * NCOUNT SIZE. inputCell SIZE (stream ! i) = Some (cells1 i)"
proof -
  obtain b cells1 where rc: "read_cells SIZE [0..<NCOUNT SIZE * NCOUNT SIZE] stream cells0 = (b, cells1)"
    by (cases "read_cells SIZE [0..<NCOUNT SIZE * NCOUNT SIZE] stream cells0")
  with assms have b: "b" and c: "cells = read_update SIZE [0..<NCOUNT SIZE * NCOUNT SIZE] cells1"
    by (auto simp: read_def split: bool.splits)
  from rc b have "read_cells SIZE [0..<NCOUNT SIZE * NCOUNT SIZE] stream cells0 = (True, cells1)"
    by simp
  from read_cells_True[OF this]
  have "\<forall>i < NCOUNT SIZE * NCOUNT SIZE. inputCell SIZE (stream ! i) = Some (cells1 i)"
    by simp
  with c show ?thesis by (rule that)
qed

lemma read_invariants:
  assumes r: "read SIZE stream cells0 = (True, cells)" and c: "completion SIZE cells sol"
  shows "wellFormed SIZE cells \<and> agrees SIZE cells sol"
proof -
  from r obtain cells1 where cells: "cells = read_update SIZE [0..<NCOUNT SIZE * NCOUNT SIZE] cells1"
    and inp: "\<And>i. i < NCOUNT SIZE * NCOUNT SIZE \<Longrightarrow> inputCell SIZE (stream ! i) = Some (cells1 i)"
    by (rule read_True) blast
  from c have l: "legal SIZE sol"
    and given: "\<And>i. i < NCOUNT SIZE * NCOUNT SIZE \<Longrightarrow> \<not> isEmpty (cells i) \<Longrightarrow> sol ! i = number (cells i)"
    by (auto simp: completion_def)
  have one: "inRange SIZE (cells1 i) \<and> admits (sol ! i) (cells1 i)"
    if i: "i < NCOUNT SIZE * NCOUNT SIZE" for i
  proof (cases "cells1 i")
    case (Empty cs)
    with inp[OF i] have "cs = {1..NCOUNT SIZE}"
      by (auto simp: inputCell_def split: if_splits)
    with Empty legalD(2)[OF l i] show ?thesis by (simp add: inRange_def admits_def)
  next
    case (Filled d)
    with inp[OF i] have "1 \<le> d \<and> d \<le> NCOUNT SIZE"
      by (auto simp: inputCell_def split: if_splits)
    moreover from Filled have "cells i = Filled d" by (simp add: cells read_update_Filled_iff)
    with given[OF i] have "sol ! i = d" by simp
    ultimately show ?thesis using Filled by (simp add: inRange_def admits_def)
  qed
  then have "readInv SIZE sol {} cells1" by (simp add: readInv_def agrees_def)
  from readInv_read_update[OF this l, of "[0..<NCOUNT SIZE * NCOUNT SIZE]"]
  have "readInv SIZE sol {0..<NCOUNT SIZE * NCOUNT SIZE} cells" by (simp add: cells)
  then show ?thesis by (rule readInv_all)
qed

section \<open>The result is the completion\<close>

text \<open>No step of the solver changes a Filled cell.\<close>

lemma assigned_keeps_Filled:
  "isEmpty (cells i) \<Longrightarrow> cells j = Filled d \<Longrightarrow> assigned SIZE cells i c j = Filled d"
  by (cases "j = i") auto

lemma restrict_cells_keeps_Filled:
  "cells j = Filled d \<Longrightarrow> snd (restrict_cells SIZE is cells result) j = Filled d"
proof (induction "is" arbitrary: cells result)
  case Nil
  then show ?case by simp
next
  case (Cons i "is")
  show ?case
  proof (cases "isEmpty (cells i)")
    case False
    with Cons show ?thesis by simp
  next
    case True
    obtain b c1 where rn: "restrict_numbers SIZE cells i (possibilities (cells i)) = (b, c1)"
      by (cases "restrict_numbers SIZE cells i (possibilities (cells i))")
    have "c1 j = Filled d"
    proof (cases b)
      case False
      with rn have "restrict_numbers SIZE cells i (possibilities (cells i)) = (False, c1)" by simp
      then have "c1 = cells" by (rule restrict_numbers_False)
      with Cons.prems show ?thesis by simp
    next
      case b: True
      with rn have "restrict_numbers SIZE cells i (possibilities (cells i)) = (True, c1)" by simp
      then obtain num where "c1 = assigned SIZE cells i num"
        using restrict_numbers_True by blast
      then show ?thesis using assigned_keeps_Filled[OF True Cons.prems] by simp
    qed
    from Cons.IH[of c1, OF this] rn True show ?thesis by (cases b) simp_all
  qed
qed

lemma solve_keeps_Filled:
  "solve SIZE cells = Some (b, cells') \<Longrightarrow> cells j = Filled d \<Longrightarrow> cells' j = Filled d"
  "assumeNumber SIZE cells = Some (b, cells') \<Longrightarrow> cells j = Filled d \<Longrightarrow> cells' j = Filled d"
  "assumeNumber_loop SIZE cells index poss = Some (b, cells') \<Longrightarrow> isEmpty (cells index) \<Longrightarrow>
     cells j = Filled d \<Longrightarrow> cells' j = Filled d"
proof (induction SIZE cells and SIZE cells and SIZE cells index poss
    arbitrary: b cells' and b cells' and b cells'
    rule: solve_assumeNumber_assumeNumber_loop.induct)
  case (1 SIZE cells)
  show ?case
  proof (cases "isFilled SIZE cells \<or> \<not> isSolvable SIZE cells")
    case True
    with 1(3) have "cells' = cells" by (subst (asm) solve.simps) auto
    with 1(4) show ?thesis by simp
  next
    case False
    obtain p c where r: "restrict SIZE cells = (p, c)" by (cases "restrict SIZE cells")
    have "c = snd (restrict_cells SIZE [0..<NCOUNT SIZE * NCOUNT SIZE] cells False)"
      using r by (simp add: restrict_def)
    then have cj: "c j = Filled d"
      using restrict_cells_keeps_Filled[of cells j d SIZE, OF 1(4)] by simp
    from False r 1(3) have s: "(if p then solve SIZE c else assumeNumber SIZE c) = Some (b, cells')"
      by (subst (asm) solve.simps) (auto split: bool.splits)
    show ?thesis
    proof (cases p)
      case True
      with r have r': "(True, c) = restrict SIZE cells" by simp
      from s True have "solve SIZE c = Some (b, cells')" by simp
      then show ?thesis using cj by (rule 1(1)[OF refl False r' refl])
    next
      case p: False
      with r have r': "(False, c) = restrict SIZE cells" by simp
      from s p have "assumeNumber SIZE c = Some (b, cells')" by simp
      then show ?thesis using cj by (rule 1(2)[OF refl False r' refl])
    qed
  qed
next
  case (2 SIZE cells)
  from 2(2) obtain index where f: "find_if_isEmpty SIZE cells = Some index"
    by (cases "find_if_isEmpty SIZE cells") (simp_all add: assumeNumber.simps)
  then have e: "isEmpty (cells index)" using find_if_isEmpty_Some by blast
  from 2(2) f have "assumeNumber_loop SIZE cells index (possibilities (cells index)) = Some (b, cells')"
    by (simp add: assumeNumber.simps)
  then show ?case using e 2(3) by (rule 2(1)[OF f])
next
  case (3 SIZE cells index)
  then show ?case by simp
next
  case (4 SIZE cells index poss_number poss)
  let ?c1 = "assigned SIZE cells index poss_number"
  have c1: "?c1 j = Filled d" using 4(4,5) by (rule assigned_keeps_Filled)
  obtain q c2 where s: "solve SIZE ?c1 = Some (q, c2)"
    using solve_Some[of SIZE ?c1] by blast
  show ?case
  proof (cases q)
    case True
    with s have s': "solve SIZE ?c1 = Some (True, c2)" by simp
    with 4(3) have "c2 = cells'" by (simp add: Let_def)
    with s' have "solve SIZE ?c1 = Some (True, cells')" by simp
    then show ?thesis using c1 by (rule 4(1)[OF refl refl])
  next
    case False
    with s have s': "solve SIZE ?c1 = Some (False, c2)" by simp
    with 4(3) have "assumeNumber_loop SIZE cells index poss = Some (b, cells')"
      by (simp add: Let_def)
    then show ?thesis using 4(4,5) by (rule 4(2)[OF refl refl s' refl refl])
  qed
qed

text \<open>A filled grid that satisfies the invariant is a legal completion.\<close>

lemma filled_wellFormed_legal:
  assumes wf: "wellFormed SIZE cells" and f: "isFilled SIZE cells"
  shows "legal SIZE (map (\<lambda>i. number (cells i)) [0..<NCOUNT SIZE * NCOUNT SIZE])"
proof -
  have ok: "\<exists>d. cells i = Filled d \<and> 1 \<le> d \<and> d \<le> NCOUNT SIZE
            \<and> (\<forall>j < NCOUNT SIZE * NCOUNT SIZE. peers SIZE i j \<longrightarrow> excludes d (cells j))"
    if "i < NCOUNT SIZE * NCOUNT SIZE" for i
  proof -
    from f that obtain d where d: "cells i = Filled d"
      by (cases "cells i") (auto simp: isFilled_iff)
    moreover have "cellOk SIZE cells i" using wf that by (simp add: wellFormed_def)
    ultimately show ?thesis by (simp add: cellOk_def)
  qed
  show ?thesis
    unfolding legal_def
  proof (intro conjI ballI impI)
    show "length (map (\<lambda>i. number (cells i)) [0..<NCOUNT SIZE * NCOUNT SIZE])
          = NCOUNT SIZE * NCOUNT SIZE" by simp
  next
    fix i assume "i \<in> {0..<NCOUNT SIZE * NCOUNT SIZE}"
    then have i: "i < NCOUNT SIZE * NCOUNT SIZE" by simp
    from ok[OF i] i show "1 \<le> map (\<lambda>i. number (cells i)) [0..<NCOUNT SIZE * NCOUNT SIZE] ! i"
      and "map (\<lambda>i. number (cells i)) [0..<NCOUNT SIZE * NCOUNT SIZE] ! i \<le> NCOUNT SIZE"
      by auto
  next
    fix i j assume "i \<in> {0..<NCOUNT SIZE * NCOUNT SIZE}" "j \<in> {0..<NCOUNT SIZE * NCOUNT SIZE}"
      and p: "j \<noteq> i \<and> (row SIZE j = row SIZE i \<or> col SIZE j = col SIZE i \<or> box SIZE j = box SIZE i)"
    then have i: "i < NCOUNT SIZE * NCOUNT SIZE" and j: "j < NCOUNT SIZE * NCOUNT SIZE" by simp_all
    from ok[OF i] obtain d where d: "cells i = Filled d"
      and ex: "\<forall>j < NCOUNT SIZE * NCOUNT SIZE. peers SIZE i j \<longrightarrow> excludes d (cells j)" by blast
    from ok[OF j] obtain e where e: "cells j = Filled e" by blast
    from ex j p have "excludes d (cells j)" by (simp add: peers_def)
    with d e i j
    show "map (\<lambda>i. number (cells i)) [0..<NCOUNT SIZE * NCOUNT SIZE] ! j
          \<noteq> map (\<lambda>i. number (cells i)) [0..<NCOUNT SIZE * NCOUNT SIZE] ! i"
      by (simp add: excludes_def)
  qed
qed

lemma read_cell_status:
  assumes r: "read SIZE stream cells0 = (True, cells)" and i: "i < NCOUNT SIZE * NCOUNT SIZE"
  shows "isEmpty (cells i) \<longleftrightarrow> stream ! i = 0"
    and "\<not> isEmpty (cells i) \<Longrightarrow> number (cells i) = stream ! i"
proof -
  from r obtain cells1 where cells: "cells = read_update SIZE [0..<NCOUNT SIZE * NCOUNT SIZE] cells1"
    and inp: "\<forall>i < NCOUNT SIZE * NCOUNT SIZE. inputCell SIZE (stream ! i) = Some (cells1 i)"
    by (rule read_True)
  from inp i have c1: "inputCell SIZE (stream ! i) = Some (cells1 i)" by simp
  then have "isEmpty (cells1 i) \<longleftrightarrow> stream ! i = 0"
    by (cases "cells1 i") (auto simp: inputCell_def split: if_splits)
  then show "isEmpty (cells i) \<longleftrightarrow> stream ! i = 0"
    by (simp add: cells read_update_isEmpty)
  assume "\<not> isEmpty (cells i)"
  then obtain d where d: "cells i = Filled d" by (cases "cells i") simp_all
  then have "cells1 i = Filled d" by (simp add: cells read_update_Filled_iff)
  with c1 d show "number (cells i) = stream ! i"
    by (auto simp: inputCell_def split: if_splits)
qed

lemma completion_read:
  assumes r: "read SIZE stream cells0 = (True, cells)"
  shows "completion SIZE cells sol \<longleftrightarrow>
     legal SIZE sol \<and> (\<forall>i < NCOUNT SIZE * NCOUNT SIZE. stream ! i \<noteq> 0 \<longrightarrow> sol ! i = stream ! i)"
  using read_cell_status[OF r] by (auto simp: completion_def)

section \<open>Claims\<close>

text \<open>
  C1: let \<open>read\<close> succeed on a stream of tokens, and let the grid it leaves have exactly one
  legal completion. Then \<open>solve\<close> returns true on that grid, the grid it leaves is filled,
  \<open>isCorrect\<close> returns true on it, and it is the completion: every cell holds the digit
  that the completion gives it.
\<close>

theorem solve_unique_puzzle:
  assumes r: "read SIZE stream cells0 = (True, cells)"
    and u: "\<exists>!sol. completion SIZE cells sol"
  shows "\<exists>cells'. solve SIZE cells = Some (True, cells')
           \<and> isFilled SIZE cells' \<and> isCorrect SIZE cells'
           \<and> (\<forall>sol. completion SIZE cells sol \<longrightarrow>
                 (\<forall>i < NCOUNT SIZE * NCOUNT SIZE. cells' i = Filled (sol ! i)))"
proof -
  from u obtain sol where c: "completion SIZE cells sol"
    and uniq: "\<And>sol'. completion SIZE cells sol' \<Longrightarrow> sol' = sol" by blast
  from c have l: "legal SIZE sol" by (simp add: completion_def)
  from read_invariants[OF r c] have wf: "wellFormed SIZE cells" and ag: "agrees SIZE cells sol"
    by simp_all
  from solve_complete(1)[OF wf ag l] obtain cells' where s: "solve SIZE cells = Some (True, cells')"
    by blast
  have f: "isFilled SIZE cells'" using s by (rule solve_True_filled(1))
  have wf': "wellFormed SIZE cells'" using wf s by (rule solve_sound(1))
  have ok: "isCorrect SIZE cells'" using wf' f by (rule wellFormed_filled_isCorrect)
  let ?sol' = "map (\<lambda>i. number (cells' i)) [0..<NCOUNT SIZE * NCOUNT SIZE]"
  have "completion SIZE cells ?sol'"
    unfolding completion_def
  proof (intro conjI ballI impI)
    show "legal SIZE ?sol'" using wf' f by (rule filled_wellFormed_legal)
  next
    fix i assume "i \<in> {0..<NCOUNT SIZE * NCOUNT SIZE}" and ne: "\<not> isEmpty (cells i)"
    then have i: "i < NCOUNT SIZE * NCOUNT SIZE" by simp
    from ne obtain d where d: "cells i = Filled d" by (cases "cells i") simp_all
    from solve_keeps_Filled(1)[OF s d] d i show "?sol' ! i = number (cells i)" by simp
  qed
  then have eq: "?sol' = sol" by (rule uniq)
  have "cells' i = Filled (sol ! i)" if i: "i < NCOUNT SIZE * NCOUNT SIZE" for i
  proof -
    from f i obtain d where d: "cells' i = Filled d"
      by (cases "cells' i") (auto simp: isFilled_iff)
    have "?sol' ! i = d" using d i by simp
    with eq d show ?thesis by simp
  qed
  with uniq have "\<forall>sol. completion SIZE cells sol \<longrightarrow>
                 (\<forall>i < NCOUNT SIZE * NCOUNT SIZE. cells' i = Filled (sol ! i))"
    by blast
  with s f ok show ?thesis by blast
qed

theorem solve_unique_puzzle_witness:
  "fst (read 2 puzzle blankGrid)
   \<and> (\<exists>cells'. solve 2 (snd (read 2 puzzle blankGrid)) = Some (True, cells')
         \<and> isFilled 2 cells' \<and> isCorrect 2 cells'
         \<and> map cells' [0..<16] = map Filled puzzleSolution)"
proof -
  let ?cells = "snd (read 2 puzzle blankGrid)"
  have n: "NCOUNT 2 * NCOUNT 2 = 16" by (simp add: NCOUNT_def)
  have "fst (read_cells 2 [0..<NCOUNT 2 * NCOUNT 2] puzzle blankGrid)" by code_simp
  then have fr: "fst (read 2 puzzle blankGrid)"
    by (cases "read_cells 2 [0..<NCOUNT 2 * NCOUNT 2] puzzle blankGrid") (simp add: read_def)
  then have r: "read 2 puzzle blankGrid = (True, ?cells)" by (simp add: prod_eq_iff)
  note cr = completion_read[OF r, unfolded n]
  have l: "legal 2 puzzleSolution" by code_simp
  have given: "\<forall>i \<in> {0..<15}. puzzle ! i \<noteq> 0 \<and> puzzleSolution ! i = puzzle ! i" by code_simp
  have last: "puzzle ! 15 = 0" by (simp add: puzzle_def)
  have ex: "completion 2 ?cells puzzleSolution"
    unfolding cr
  proof (intro conjI allI impI)
    fix i :: nat assume "i < 16" "puzzle ! i \<noteq> 0"
    with last have "i \<in> {0..<15}" by (cases "i = 15") auto
    with given show "puzzleSolution ! i = puzzle ! i" by blast
  qed (rule l)
  have un: "sol = puzzleSolution" if c: "completion 2 ?cells sol" for sol
  proof -
    from c have ls: "legal 2 sol"
      and g: "\<And>i. i < 16 \<Longrightarrow> puzzle ! i \<noteq> 0 \<Longrightarrow> sol ! i = puzzle ! i"
      by (simp_all add: cr)
    have len: "length sol = 16" using legalD(1)[OF ls] n by simp
    have first: "sol ! i = puzzleSolution ! i" if "i < 15" for i
      using g[of i] given that by auto
    have p: "peers 2 15 12" "peers 2 15 13" "peers 2 15 14"
      by (simp_all add: peers_def row_def NCOUNT_def)
    have "sol ! 12 \<noteq> sol ! 15" "sol ! 13 \<noteq> sol ! 15" "sol ! 14 \<noteq> sol ! 15"
      using legalD(3)[OF ls _ _ p(1)] legalD(3)[OF ls _ _ p(2)] legalD(3)[OF ls _ _ p(3)] n
      by simp_all
    moreover have "sol ! 12 = 4" "sol ! 13 = 3" "sol ! 14 = 2"
      using first[of 12] first[of 13] first[of 14] by (simp_all add: puzzleSolution_def)
    moreover have "1 \<le> sol ! 15 \<and> sol ! 15 \<le> 4"
      using legalD(2)[OF ls, of 15] by (simp add: NCOUNT_def)
    ultimately have "sol ! 15 = 1" by arith
    then have fifteen: "sol ! 15 = puzzleSolution ! 15" by (simp add: puzzleSolution_def)
    show ?thesis
    proof (rule nth_equalityI)
      show "length sol = length puzzleSolution" using len by (simp add: puzzleSolution_def)
    next
      fix i assume "i < length sol"
      with len have "i < 15 \<or> i = 15" by auto
      with first fifteen show "sol ! i = puzzleSolution ! i" by blast
    qed
  qed
  have u: "\<exists>!sol. completion 2 ?cells sol" using ex un by blast
  from solve_unique_puzzle[OF r u] obtain cells'
    where s: "solve 2 ?cells = Some (True, cells')" and f: "isFilled 2 cells'"
      and ok: "isCorrect 2 cells'"
      and eq: "\<forall>sol. completion 2 ?cells sol \<longrightarrow> (\<forall>i < NCOUNT 2 * NCOUNT 2. cells' i = Filled (sol ! i))"
    by blast
  from eq ex n have "\<forall>i < 16. cells' i = Filled (puzzleSolution ! i)" by simp
  moreover have "length puzzleSolution = 16" by (simp add: puzzleSolution_def)
  ultimately have "map cells' [0..<16] = map Filled puzzleSolution"
    by (intro nth_equalityI) simp_all
  with fr s f ok show ?thesis by blast
qed

text \<open>
  C2: \<open>solve\<close> returns true on a filled grid and false on a grid with an Empty cell that
  has no candidate, leaving the grid as it is in both cases. Otherwise its value is that
  of the following procedure: sweep until a sweep reports no progress
  (\<open>propagateToFixpoint\<close>); true if the grid is then filled, and the value of
  \<open>assumeNumber\<close> on that grid if not. When no cell of that grid is without candidates,
  \<open>solve\<close> also leaves the very grid that this procedure leaves. If \<open>solve\<close> returns true,
  the grid it leaves is filled.
\<close>

theorem solve_contract:
  "(isFilled SIZE cells \<longleftrightarrow> (\<forall>k < NCOUNT SIZE * NCOUNT SIZE. \<not> isEmpty (cells k)))
   \<and> (isSolvable SIZE cells \<longleftrightarrow> \<not> (\<exists>k < NCOUNT SIZE * NCOUNT SIZE. cells k = Empty {}))
   \<and> (isFilled SIZE cells \<longrightarrow> solve SIZE cells = Some (True, cells))
   \<and> (\<not> isSolvable SIZE cells \<longrightarrow> solve SIZE cells = Some (False, cells))
   \<and> restrict SIZE (propagateToFixpoint SIZE cells) = (False, propagateToFixpoint SIZE cells)
   \<and> (\<not> isFilled SIZE cells \<and> isSolvable SIZE cells \<longrightarrow>
        map_option fst (solve SIZE cells) =
          (if isFilled SIZE (propagateToFixpoint SIZE cells) then Some True
           else map_option fst (assumeNumber SIZE (propagateToFixpoint SIZE cells))))
   \<and> (\<not> isFilled SIZE cells \<and> isSolvable SIZE (propagateToFixpoint SIZE cells) \<longrightarrow>
        solve SIZE cells =
          (if isFilled SIZE (propagateToFixpoint SIZE cells)
           then Some (True, propagateToFixpoint SIZE cells)
           else assumeNumber SIZE (propagateToFixpoint SIZE cells)))
   \<and> (solve SIZE cells = Some (True, cells') \<longrightarrow> isFilled SIZE cells')"
proof -
  have "isSolvable SIZE cells \<longleftrightarrow> \<not> (\<exists>k < NCOUNT SIZE * NCOUNT SIZE. cells k = Empty {})"
    by (simp add: isSolvable_iff isInconsistent_iff)
  then show ?thesis
    using isFilled_iff[of SIZE cells] solve_filled[of SIZE cells] solve_unsolvable[of SIZE cells]
      restrict_propagateToFixpoint[of SIZE cells]
      solve_follows_contract[of SIZE cells] solve_follows_contract_state[of SIZE cells]
      solve_True_filled(1)[of SIZE cells cells']
    by blast
qed

theorem solve_contract_witness:
  "solve 2 solvedGrid = Some (True, solvedGrid)
   \<and> solve 2 (twoCandGrid(0 := Empty {})) = Some (False, twoCandGrid(0 := Empty {}))
   \<and> solve 2 almostGrid = Some (True, propagateToFixpoint 2 almostGrid)
   \<and> map_option fst (solve 2 almostGrid) = Some True
   \<and> isFilled 2 (propagateToFixpoint 2 almostGrid)
   \<and> solve 2 blankGrid = assumeNumber 2 (propagateToFixpoint 2 blankGrid)"
proof -
  have g: "\<not> isFilled 2 blankGrid \<and> isSolvable 2 (propagateToFixpoint 2 blankGrid)
      \<and> \<not> isFilled 2 (propagateToFixpoint 2 blankGrid)" by code_simp
  have a: "isFilled 2 solvedGrid" by code_simp
  have b: "\<not> isSolvable 2 (twoCandGrid(0 := Empty {}))" by code_simp
  have c: "\<not> isFilled 2 almostGrid \<and> isSolvable 2 almostGrid" by code_simp
  have d: "isFilled 2 (propagateToFixpoint 2 almostGrid)" by code_simp
  then have e: "isSolvable 2 (propagateToFixpoint 2 almostGrid)" by (rule isFilled_imp_isSolvable)
  from solve_contract[of 2 solvedGrid] a
  have "solve 2 solvedGrid = Some (True, solvedGrid)" by simp
  moreover from solve_contract[of 2 "twoCandGrid(0 := Empty {})"] b
  have "solve 2 (twoCandGrid(0 := Empty {})) = Some (False, twoCandGrid(0 := Empty {}))" by simp
  moreover from solve_contract[of 2 almostGrid] c d e
  have "solve 2 almostGrid = Some (True, propagateToFixpoint 2 almostGrid)"
    and "map_option fst (solve 2 almostGrid) = Some True" by simp_all
  moreover from solve_contract[of 2 blankGrid] g
  have "solve 2 blankGrid = assumeNumber 2 (propagateToFixpoint 2 blankGrid)" by simp
  ultimately show ?thesis using d by simp
qed

text \<open>
  C3: when the cell at \<open>index\<close> holds the digit \<open>d\<close>, \<open>updatePossibilities\<close> eliminates \<open>d\<close>
  in every other cell that shares the row, the column or the box of \<open>index\<close>, and leaves
  every remaining cell of the grid, the cell at \<open>index\<close> among them, as it was. (The three
  loops of the source also visit the cell at \<open>index\<close> itself; it is Filled, so \<open>disable\<close>
  does nothing there.)
\<close>

theorem updatePossibilities_eliminates_in_groups:
  assumes "index < NCOUNT SIZE * NCOUNT SIZE" and "cells index = Filled d"
  shows "updatePossibilities SIZE cells index j =
     (if inGroupsOf SIZE index j \<and> j \<noteq> index then disable d (cells j) else cells j)"
  using assms by (simp add: updatePossibilities_apply)

theorem updatePossibilities_eliminates_in_groups_witness:
  "(0::nat) < NCOUNT 2 * NCOUNT 2 \<and> (blankGrid(0 := Filled 1)) 0 = Filled 1
   \<and> updatePossibilities 2 (blankGrid(0 := Filled 1)) 0 0 = Filled 1
   \<and> updatePossibilities 2 (blankGrid(0 := Filled 1)) 0 5 = Empty {2, 3, 4}
   \<and> updatePossibilities 2 (blankGrid(0 := Filled 1)) 0 10 = Empty {1, 2, 3, 4}"
proof -
  have h1: "(0::nat) < NCOUNT 2 * NCOUNT 2" by (simp add: NCOUNT_def)
  have h2: "(blankGrid(0 := Filled 1)) 0 = Filled 1" by simp
  note t = updatePossibilities_eliminates_in_groups
             [where index = 0 and SIZE = 2 and cells = "blankGrid(0 := Filled 1)" and d = 1,
              OF h1 h2]
  have "{1, 2, 3, 4} - {Suc 0} = {2, 3, 4::nat}" by auto
  then show ?thesis
    using h1 t[of 0] t[of 5] t[of 10]
    by (simp add: inGroupsOf_def row_def col_def box_def NCOUNT_def blankGrid_def)
qed

text \<open>
  C4, as amended: the sweep visits the cells in index order. A Filled cell is skipped. An
  Empty cell is assigned exactly when one of its candidates \<open>c\<close> is assignable, that is,
  the cell has a single candidate, or in at least one of its row, column and box no other
  Empty cell lists \<open>c\<close>, in the state the sweep has reached; the cell then gets the
  smallest assignable candidate, the elimination for it is applied at once, and the sweep
  goes on with the later cells from the new state. The sweep returns true exactly when
  some cell that was Empty has been Filled.
\<close>

theorem restrict_assigns_first_single:
  assumes "i < NCOUNT SIZE * NCOUNT SIZE"
  shows "(\<not> isEmpty (cells i) \<longrightarrow>
            restrict_cells SIZE (i # is) cells result = restrict_cells SIZE is cells result)
    \<and> (isEmpty (cells i) \<and> (\<forall>c \<in> set (possibilities (cells i)). \<not> assignable SIZE cells i c) \<longrightarrow>
            restrict_cells SIZE (i # is) cells result = restrict_cells SIZE is cells result)
    \<and> (isEmpty (cells i) \<and> c \<in> set (possibilities (cells i)) \<and> assignable SIZE cells i c
          \<and> (\<forall>c' \<in> set (possibilities (cells i)). c' < c \<longrightarrow> \<not> assignable SIZE cells i c') \<longrightarrow>
            restrict_cells SIZE (i # is) cells result
            = restrict_cells SIZE is (assigned SIZE cells i c) True)
    \<and> (cells i = Empty cs \<and> finite cs \<longrightarrow> set (possibilities (cells i)) = cs)
    \<and> restrict SIZE cells = restrict_cells SIZE [0..<NCOUNT SIZE * NCOUNT SIZE] cells False
    \<and> (fst (restrict SIZE cells) \<longleftrightarrow>
          (\<exists>k < NCOUNT SIZE * NCOUNT SIZE. isEmpty (cells k) \<and> \<not> isEmpty (snd (restrict SIZE cells) k)))"
proof (intro conjI impI)
  assume "\<not> isEmpty (cells i)"
  then show "restrict_cells SIZE (i # is) cells result = restrict_cells SIZE is cells result"
    by simp
next
  assume h: "isEmpty (cells i) \<and> (\<forall>c \<in> set (possibilities (cells i)). \<not> assignable SIZE cells i c)"
  then have "find (assignable SIZE cells i) (possibilities (cells i)) = None"
    by (simp add: find_None_iff)
  with h show "restrict_cells SIZE (i # is) cells result = restrict_cells SIZE is cells result"
    by (simp add: restrict_numbers_find[OF assms])
next
  assume h: "isEmpty (cells i) \<and> c \<in> set (possibilities (cells i)) \<and> assignable SIZE cells i c
          \<and> (\<forall>c' \<in> set (possibilities (cells i)). c' < c \<longrightarrow> \<not> assignable SIZE cells i c')"
  then have "find (assignable SIZE cells i) (possibilities (cells i)) = Some c"
    by (intro find_first_sorted possibilities_sorted) simp_all
  with h show "restrict_cells SIZE (i # is) cells result
            = restrict_cells SIZE is (assigned SIZE cells i c) True"
    by (simp add: restrict_numbers_find[OF assms])
next
  assume "cells i = Empty cs \<and> finite cs"
  then show "set (possibilities (cells i)) = cs" by simp
next
  show "restrict SIZE cells = restrict_cells SIZE [0..<NCOUNT SIZE * NCOUNT SIZE] cells False"
    by (simp add: restrict_def)
next
  have "restrict_cells SIZE [0..<NCOUNT SIZE * NCOUNT SIZE] cells False
        = (fst (restrict SIZE cells), snd (restrict SIZE cells))"
    by (simp add: restrict_def)
  from restrict_cells_progress[OF this]
  show "fst (restrict SIZE cells) \<longleftrightarrow>
          (\<exists>k < NCOUNT SIZE * NCOUNT SIZE. isEmpty (cells k) \<and> \<not> isEmpty (snd (restrict SIZE cells) k))"
    by simp
qed

theorem restrict_assigns_first_single_witness:
  "restrict_cells 2 [0] almostGrid False = (False, almostGrid)
   \<and> restrict_cells 2 [0] blankGrid False = (False, blankGrid)
   \<and> restrict_cells 2 [0] twoCandGrid False = (True, assigned 2 twoCandGrid 0 1)
   \<and> set (possibilities (twoCandGrid 0)) = {1, 2}
   \<and> fst (restrict 2 twoCandGrid)
   \<and> (\<exists>k < NCOUNT 2 * NCOUNT 2. isEmpty (twoCandGrid k) \<and> \<not> isEmpty (snd (restrict 2 twoCandGrid) k))"
proof -
  have i: "(0::nat) < NCOUNT 2 * NCOUNT 2" by (simp add: NCOUNT_def)
  note t = restrict_assigns_first_single[OF i]
  have a: "\<not> isEmpty (almostGrid 0)" by (simp add: almostGrid_def)
  have b: "isEmpty (blankGrid 0) \<and> (\<forall>c \<in> set (possibilities (blankGrid 0)). \<not> assignable 2 blankGrid 0 c)"
    by code_simp
  have c: "isEmpty (twoCandGrid 0) \<and> 1 \<in> set (possibilities (twoCandGrid 0))
      \<and> assignable 2 twoCandGrid 0 1
      \<and> (\<forall>c' \<in> set (possibilities (twoCandGrid 0)). c' < 1 \<longrightarrow> \<not> assignable 2 twoCandGrid 0 c')"
    by code_simp
  have d: "twoCandGrid 0 = Empty {1, 2} \<and> finite {1, 2::nat}" by (simp add: twoCandGrid_def)
  have e: "fst (restrict 2 twoCandGrid)" by code_simp
  from t[of almostGrid "[]" False] a
  have "restrict_cells 2 [0] almostGrid False = (False, almostGrid)" by simp
  moreover from t[of blankGrid "[]" False] b
  have "restrict_cells 2 [0] blankGrid False = (False, blankGrid)" by simp
  moreover from t[of twoCandGrid "[]" False 1] c
  have "restrict_cells 2 [0] twoCandGrid False = (True, assigned 2 twoCandGrid 0 1)" by simp
  moreover from t[of twoCandGrid _ _ _ "{1, 2}"] d
  have "set (possibilities (twoCandGrid 0)) = {1, 2}" by blast
  moreover from t[of twoCandGrid] e
  have "\<exists>k < NCOUNT 2 * NCOUNT 2. isEmpty (twoCandGrid k) \<and> \<not> isEmpty (snd (restrict 2 twoCandGrid) k)"
    by blast
  ultimately show ?thesis using e by blast
qed

text \<open>
  C4 as stated fails: in \<open>twoCandGrid\<close> the cell at index 0 has the candidates 1 and 2 and
  no other cell of the grid is Empty, so at the moment of the check no other Empty cell
  of its row, its column or its box lists 2. The sweep assigns 1, the first candidate
  that qualifies, and never tries 2.
\<close>

theorem restrict_skips_second_single:
  "possibilities (twoCandGrid 0) = [1, 2]
   \<and> list_all (\<lambda>j. \<not> isEmpty (twoCandGrid j)) [1..<16]
   \<and> hiddenSingle 2 twoCandGrid 0 2
   \<and> assignable 2 twoCandGrid 0 2
   \<and> snd (restrict 2 twoCandGrid) 0 = Filled 1"
  by code_simp

text \<open>
  C5: in the loop of \<open>assumeNumber\<close> every candidate is tried from the same grid, the
  snapshot: when \<open>solve\<close> fails on the grid with the candidate assigned, the loop goes on
  with the remaining candidates from the grid as it was before the assignment, and when
  \<open>solve\<close> succeeds, the loop returns true with the grid \<open>solve\<close> left. So \<open>assumeNumber\<close>
  returns false only with the grid it was called on, returns true only with the result
  of a successful \<open>solve\<close> for some candidate of the first Empty cell, and returns false
  when \<open>solve\<close> fails for every candidate of that cell.
\<close>

theorem assumeNumber_restores_snapshot:
  "(solve SIZE (assigned SIZE cells index p) = Some (False, cells2) \<longrightarrow>
      assumeNumber_loop SIZE cells index (p # poss) = assumeNumber_loop SIZE cells index poss)
   \<and> (solve SIZE (assigned SIZE cells index p) = Some (True, cells2) \<longrightarrow>
      assumeNumber_loop SIZE cells index (p # poss) = Some (True, cells2))
   \<and> (assumeNumber SIZE cells = Some (False, cells') \<longrightarrow> cells' = cells)
   \<and> (assumeNumber SIZE cells = Some (True, cells') \<longrightarrow>
        (\<exists>i q. find_if_isEmpty SIZE cells = Some i \<and> q \<in> set (possibilities (cells i))
               \<and> solve SIZE (assigned SIZE cells i q) = Some (True, cells')))
   \<and> (find_if_isEmpty SIZE cells = Some index
        \<and> (\<forall>q \<in> set (possibilities (cells index)).
              \<exists>c. solve SIZE (assigned SIZE cells index q) = Some (False, c)) \<longrightarrow>
        assumeNumber SIZE cells = Some (False, cells))"
proof (intro conjI impI)
  assume "solve SIZE (assigned SIZE cells index p) = Some (False, cells2)"
  then show "assumeNumber_loop SIZE cells index (p # poss) = assumeNumber_loop SIZE cells index poss"
    by (simp add: Let_def)
next
  assume "solve SIZE (assigned SIZE cells index p) = Some (True, cells2)"
  then show "assumeNumber_loop SIZE cells index (p # poss) = Some (True, cells2)"
    by (simp add: Let_def)
next
  assume "assumeNumber SIZE cells = Some (False, cells')"
  then show "cells' = cells"
    by (auto simp: assumeNumber.simps split: option.splits dest: assumeNumber_loop_False)
next
  assume a: "assumeNumber SIZE cells = Some (True, cells')"
  then obtain i where f: "find_if_isEmpty SIZE cells = Some i"
    by (cases "find_if_isEmpty SIZE cells") (simp_all add: assumeNumber.simps)
  with a have "assumeNumber_loop SIZE cells i (possibilities (cells i)) = Some (True, cells')"
    by (simp add: assumeNumber.simps)
  from assumeNumber_loop_True[OF this] f
  show "\<exists>i q. find_if_isEmpty SIZE cells = Some i \<and> q \<in> set (possibilities (cells i))
               \<and> solve SIZE (assigned SIZE cells i q) = Some (True, cells')"
    by blast
next
  assume "find_if_isEmpty SIZE cells = Some index
        \<and> (\<forall>q \<in> set (possibilities (cells index)).
              \<exists>c. solve SIZE (assigned SIZE cells index q) = Some (False, c))"
  then show "assumeNumber SIZE cells = Some (False, cells)"
    by (simp add: assumeNumber.simps assumeNumber_loop_all_fail)
qed

theorem assumeNumber_restores_snapshot_witness:
  "assumeNumber 2 clashGrid = Some (False, clashGrid)
   \<and> assumeNumber_loop 2 clashGrid 0 [1, 2] = assumeNumber_loop 2 clashGrid 0 [2]
   \<and> (\<exists>c. assumeNumber 2 almostGrid = Some (True, c)
          \<and> solve 2 (assigned 2 almostGrid 15 1) = Some (True, c)
          \<and> assumeNumber_loop 2 almostGrid 15 [1, 2] = Some (True, c))"
proof -
  have "\<not> fst (the (solve 2 (assigned 2 clashGrid 0 1)))" by code_simp
  then obtain c2 where fail: "solve 2 (assigned 2 clashGrid 0 1) = Some (False, c2)"
    using solve_Some[of 2 "assigned 2 clashGrid 0 1"] by auto
  have f: "find_if_isEmpty 2 clashGrid = Some 0" by code_simp
  have p: "possibilities (clashGrid 0) = [1]" by (simp add: clashGrid_def)
  have "fst (the (solve 2 (assigned 2 almostGrid 15 1)))" by code_simp
  then obtain c where ok: "solve 2 (assigned 2 almostGrid 15 1) = Some (True, c)"
    using solve_Some[of 2 "assigned 2 almostGrid 15 1"] by auto
  have f1: "find_if_isEmpty 2 almostGrid = Some 15" by code_simp
  have p1: "possibilities (almostGrid 15) = [1]" by (simp add: almostGrid_def)
  have a1: "assumeNumber 2 almostGrid = Some (True, c)"
    using ok f1 p1 by (simp add: assumeNumber.simps Let_def)
  note t = assumeNumber_restores_snapshot
  from t[of 2 clashGrid 0 1 c2 "[2]" clashGrid] fail f p
  have "assumeNumber 2 clashGrid = Some (False, clashGrid)"
    and "assumeNumber_loop 2 clashGrid 0 [1, 2] = assumeNumber_loop 2 clashGrid 0 [2]"
    by auto
  moreover from t[of 2 almostGrid 15 1 c "[2]" c] ok a1
  have "assumeNumber_loop 2 almostGrid 15 [1, 2] = Some (True, c)" by simp
  ultimately show ?thesis using a1 ok by blast
qed

text \<open>
  C6, as amended: \<open>isCorrect\<close> returns true exactly when, in every row, column and box,
  the values that \<open>number\<close> reports for the cells are pairwise distinct. On a grid whose
  cells are all Filled this says that every group carries pairwise distinct digits. The
  function does not test that a cell is Filled.
\<close>

theorem isCorrect_compares_numbers:
  "(isCorrect SIZE cells \<longleftrightarrow> numbersDistinct SIZE cells)
   \<and> (isFilled SIZE cells \<longrightarrow> (isCorrect SIZE cells \<longleftrightarrow> allFilledDistinct SIZE cells))"
  by (auto simp: isCorrect_iff_numbersDistinct allFilledDistinct_def isFilled_iff)

theorem isCorrect_compares_numbers_witness:
  "isFilled 2 solvedGrid \<and> isCorrect 2 solvedGrid \<and> allFilledDistinct 2 solvedGrid
   \<and> numbersDistinct 2 solvedGrid"
proof -
  have h: "isFilled 2 solvedGrid" by code_simp
  have c: "isCorrect 2 solvedGrid" by code_simp
  from isCorrect_compares_numbers[of 2 solvedGrid] h c show ?thesis by simp
qed

text \<open>
  C6 as stated fails: the grid \<open>almostGrid\<close> has an Empty cell at index 15, for which
  \<open>number\<close> reports 0, a value no other cell of its row, column and box carries, and
  \<open>isCorrect\<close> returns true. For box size 1 every group has a single member, the insertion
  into the set always succeeds, and \<open>isCorrect\<close> returns true on the grid whose only cell
  is Empty.
\<close>

theorem isCorrect_accepts_unfilled_grid:
  "isCorrect 2 almostGrid \<and> isEmpty (almostGrid 15) \<and> \<not> allFilledDistinct 2 almostGrid
   \<and> isCorrect 1 oneGrid \<and> isEmpty (oneGrid 0) \<and> \<not> allFilledDistinct 1 oneGrid"
proof -
  have "isCorrect 2 almostGrid" by code_simp
  moreover have e: "isEmpty (almostGrid 15)" by (simp add: almostGrid_def)
  moreover from e have "\<not> allFilledDistinct 2 almostGrid"
    unfolding allFilledDistinct_def by (auto simp: NCOUNT_def)
  moreover have "isCorrect 1 oneGrid" by code_simp
  moreover have "isEmpty (oneGrid 0)" by (simp add: oneGrid_def)
  moreover have "\<not> allFilledDistinct 1 oneGrid"
    unfolding allFilledDistinct_def by (auto simp: NCOUNT_def oneGrid_def)
  ultimately show ?thesis by simp
qed

text \<open>
  C7: when a sweep of \<open>restrict\<close> reports no progress, it has changed no cell, and a second
  sweep from the resulting state reports no progress again and ends in the same state.
\<close>

theorem restrict_no_progress_is_fixed_point:
  assumes "restrict SIZE cells = (False, cells')"
  shows "cells' = cells \<and> restrict SIZE cells' = (False, cells')"
  using assms restrict_False_same[OF assms] by simp

theorem restrict_no_progress_is_fixed_point_witness:
  "restrict 2 blankGrid = (False, blankGrid)"
proof -
  have "\<not> fst (restrict 2 blankGrid)" by code_simp
  then have h: "restrict 2 blankGrid = (False, snd (restrict 2 blankGrid))"
    by (simp add: prod_eq_iff)
  from restrict_no_progress_is_fixed_point[OF h] h show ?thesis by simp
qed

text \<open>
  C8: along any sequence of sweeps, eliminations and assignments followed by their
  elimination, none of which restores a snapshot, a cell that is Empty at the end was
  Empty at the start, and its candidates at the end are among its candidates at the start.
\<close>

theorem propagation_only_shrinks:
  assumes "propagation SIZE cells cells'" and "cells' j = Empty cs'"
  shows "\<exists>cs. cells j = Empty cs \<and> cs' \<subseteq> cs"
proof -
  from assms(1) have "shrinks (cells j) (cells' j)"
  proof induction
    case start
    show ?case by simp
  next
    case (sweep cells1)
    then show ?case by (blast intro: shrinks_trans shrinks_restrict)
  next
    case (update cells1 index)
    then show ?case by (blast intro: shrinks_trans shrinks_updatePossibilities)
  next
    case (assign cells1 index num)
    then show ?case by (blast intro: shrinks_trans shrinks_assign)
  qed
  with assms(2) show ?thesis by (auto simp: shrinks_def split: cell.splits)
qed

theorem propagation_only_shrinks_witness:
  "\<exists>cs. blankGrid 5 = Empty cs \<and> {2, 3, 4} \<subseteq> cs"
proof -
  let ?g = "updatePossibilities 2 (blankGrid(0 := setNumber 1 (blankGrid 0))) 0"
  have h1: "propagation 2 blankGrid ?g"
    by (rule propagation.assign[OF propagation.start])
  have "{1, 2, 3, 4} - {Suc 0} = {2, 3, 4::nat}" by auto
  then have h2: "?g 5 = Empty {2, 3, 4}"
    by (simp add: updatePossibilities_apply NCOUNT_def inGroupsOf_def row_def col_def box_def
        blankGrid_def)
  from propagation_only_shrinks[OF h1 h2] show ?thesis .
qed

text \<open>
  C9: \<open>solve\<close> returns on every grid. The recursion is well-founded (the termination
  proof of \<open>solve\<close> above orders the calls by the number of Empty cells): a sweep that
  reports progress leaves fewer Empty cells, and so does the assignment that
  \<open>assumeNumber\<close> makes before it calls \<open>solve\<close> again.
\<close>

theorem solve_terminates:
  "(\<exists>b cells'. solve SIZE cells = Some (b, cells'))
   \<and> (\<forall>cells'. restrict SIZE cells = (True, cells') \<longrightarrow>
         countEmpty SIZE cells' < countEmpty SIZE cells)
   \<and> (\<forall>index num. find_if_isEmpty SIZE cells = Some index \<longrightarrow>
         countEmpty SIZE (assigned SIZE cells index num) < countEmpty SIZE cells)"
proof (intro conjI allI impI)
  show "\<exists>b cells'. solve SIZE cells = Some (b, cells')" by (rule solve_Some)
next
  fix cells' assume "restrict SIZE cells = (True, cells')"
  then show "countEmpty SIZE cells' < countEmpty SIZE cells" by (rule restrict_True_countEmpty)
next
  fix index num assume "find_if_isEmpty SIZE cells = Some index"
  then have "index < NCOUNT SIZE * NCOUNT SIZE" "isEmpty (cells index)"
    using find_if_isEmpty_Some by blast+
  then show "countEmpty SIZE (assigned SIZE cells index num) < countEmpty SIZE cells"
    by (rule countEmpty_assign)
qed

theorem solve_terminates_witness:
  "(\<exists>b cells'. solve 2 almostGrid = Some (b, cells'))
   \<and> countEmpty 2 (snd (restrict 2 almostGrid)) < countEmpty 2 almostGrid
   \<and> countEmpty 2 (assigned 2 almostGrid 15 1) < countEmpty 2 almostGrid"
proof -
  have "fst (restrict 2 almostGrid)" by code_simp
  then have h1: "restrict 2 almostGrid = (True, snd (restrict 2 almostGrid))"
    by (simp add: prod_eq_iff)
  have h2: "find_if_isEmpty 2 almostGrid = Some 15" by code_simp
  from solve_terminates[of 2 almostGrid] h1 h2 show ?thesis by blast
qed

text \<open>
  C10: \<open>solve\<close> calls \<open>assumeNumber\<close> only when the grid is not filled and the sweep before
  the call reported no progress. Then the search for the first Empty cell finds an index
  inside the grid, the cell there is Empty and no cell before it is, and \<open>assumeNumber\<close>
  runs its loop over the candidates of that cell.
\<close>

theorem assumeNumber_finds_Empty_cell:
  assumes "\<not> isFilled SIZE cells" and "restrict SIZE cells = (False, cells')"
  shows "\<exists>index. find_if_isEmpty SIZE cells' = Some index
           \<and> index < NCOUNT SIZE * NCOUNT SIZE \<and> isEmpty (cells' index)
           \<and> (\<forall>j < index. \<not> isEmpty (cells' j))
           \<and> assumeNumber SIZE cells' = assumeNumber_loop SIZE cells' index (possibilities (cells' index))"
proof -
  have "cells' = cells" using assms(2) by (rule restrict_False_same)
  with assms(1) obtain index where f: "find_if_isEmpty SIZE cells' = Some index"
    using find_if_isEmpty_None[of SIZE cells'] by auto
  then show ?thesis
    using find_if_isEmpty_Some[OF f] find_if_isEmpty_first[OF f]
    by (subst assumeNumber.simps) simp
qed

theorem assumeNumber_finds_Empty_cell_witness:
  "\<not> isFilled 2 blankGrid \<and> restrict 2 blankGrid = (False, blankGrid)
   \<and> (\<exists>index. find_if_isEmpty 2 blankGrid = Some index
           \<and> index < NCOUNT 2 * NCOUNT 2 \<and> isEmpty (blankGrid index)
           \<and> (\<forall>j < index. \<not> isEmpty (blankGrid j))
           \<and> assumeNumber 2 blankGrid = assumeNumber_loop 2 blankGrid index (possibilities (blankGrid index)))"
proof -
  have h1: "\<not> isFilled 2 blankGrid" by code_simp
  have "\<not> fst (restrict 2 blankGrid)" by code_simp
  then have "restrict 2 blankGrid = (False, snd (restrict 2 blankGrid))"
    by (simp add: prod_eq_iff)
  then have h2: "restrict 2 blankGrid = (False, blankGrid)"
    using restrict_False_same by metis
  from assumeNumber_finds_Empty_cell[OF h1 h2] h1 h2 show ?thesis by simp
qed

end
